theory Spec2Isabelle
  imports Main "HOL-Library.Word" "HOL-Library.Multiset"
begin

section \<open>PCR protection profiles (tpm2/pcr\_profile.go)\<close>

text \<open>
  The profile evaluator of \<^verbatim>\<open>tpm2/pcr_profile.go\<close> is embedded as it is written: a
  profile is a list of instructions, the traversal iterator is a list of remaining
  instruction lists, and the evaluation keeps a stack of pointers to compute contexts.
  Go maps and contexts are reference objects, so they live in an explicit store: a
  \<^verbatim>\<open>tpm2.PCRValues\<close> is the address of an outer map from algorithm to the address of an
  inner map from PCR index to digest, and \<^verbatim>\<open>pcrValuesList.copy\<close> allocates new
  objects. A \<^verbatim>\<open>tpm2.Digest\<close> is a byte list: the code never writes into the bytes of a
  stored digest (it only replaces map entries), so digests are values.

  A profile is a finite tree here: a sub-profile that is a nil pointer, or a profile
  attached below itself (which the Go builder does not prevent), has no counterpart
  in the datatype.
\<close>

subsection \<open>Data\<close>

type_synonym alg = "16 word"  \<comment> \<open>\<^verbatim>\<open>tpm2.HashAlgorithmId\<close>\<close>
type_synonym digest = "8 word list"  \<comment> \<open>\<^verbatim>\<open>tpm2.Digest\<close>\<close>
type_synonym pcr_values = "alg \<rightharpoonup> (int \<rightharpoonup> digest)"  \<comment> \<open>the content of a \<^verbatim>\<open>tpm2.PCRValues\<close>\<close>

text \<open>A PCR index is a Go \<^verbatim>\<open>int\<close>; it is only used as a key, so its width plays no part.\<close>

text \<open>The four instruction types a builder method appends to \<^verbatim>\<open>instrs\<close>.\<close>

datatype instr =
    AddPCRValue alg int digest
  | AddPCRValueFromTPM alg int
  | ExtendPCR alg int digest
  | AddProfileOR "instr list list"

type_synonym PCRProtectionProfile = "instr list"

text \<open>What \<^verbatim>\<open>next\<close> returns: an instruction of the profile or the pseudo instruction
  \<^verbatim>\<open>pcrProtectionProfileEndProfileInstr\<close>.\<close>

datatype next_instr = Instr instr | EndProfileInstr

datatype error =
    NoTPMContext int alg  \<comment> \<open>"cannot read current value of PCR .. from bank ..: no TPM context"\<close>
  | PCRReadFailed int alg string  \<comment> \<open>the wrapped error of \<^verbatim>\<open>tpm.PCRRead\<close>\<close>
  | BranchesDiffer  \<comment> \<open>"not all branches contain values for the same sets of PCRs"\<close>
  | Panic string  \<comment> \<open>a Go run-time panic\<close>

text \<open>The hash functions of go-tpm2 are parameters: \<open>Size\<close> is
  \<^verbatim>\<open>alg.Size()\<close>, \<open>Sum\<close> is \<^verbatim>\<open>alg.NewHash()\<close> fed with the bytes and read with
  \<^verbatim>\<open>Sum(nil)\<close>, and \<open>PCRDigest\<close> is the composite digest that
  \<^verbatim>\<open>tpm2.ComputePCRDigestSimple\<close> returns for a set of PCR values.\<close>

record hashes =
  Size :: "alg \<Rightarrow> nat"
  Sum :: "alg \<Rightarrow> 8 word list \<Rightarrow> digest"
  PCRDigest :: "alg \<Rightarrow> pcr_values \<Rightarrow> digest"

text \<open>The TPM is the answer \<^verbatim>\<open>PCRRead\<close> gives for a selection of one PCR: an error
  or a set of PCR values. The argument \<^verbatim>\<open>tpm\<close> of the Go functions may be nil.\<close>

type_synonym TPMContext = "alg \<Rightarrow> int \<Rightarrow> string + pcr_values"

subsection \<open>The store\<close>

record computeContext =
  parent :: "nat option"
  vals :: "nat list"  \<comment> \<open>\<^verbatim>\<open>values pcrValuesList\<close>: the addresses of the \<^verbatim>\<open>PCRValues\<close>\<close>

text \<open>Each kind of object has its own address space; the counter is the next free
  address. An outer map is kept as a list of pairs with distinct keys; \<^verbatim>\<open>range\<close> visits
  it in list order (Go leaves the order open, and only the numbering of the new inner
  maps depends on it).\<close>

record heap =
  banks :: "nat \<Rightarrow> (int \<rightharpoonup> digest)"  \<comment> \<open>\<^verbatim>\<open>map[int]tpm2.Digest\<close>\<close>
  nbanks :: nat
  pcrvals :: "nat \<Rightarrow> (alg \<times> nat) list"  \<comment> \<open>\<^verbatim>\<open>tpm2.PCRValues\<close>\<close>
  npcrvals :: nat
  ctxs :: "nat \<Rightarrow> computeContext"  \<comment> \<open>\<^verbatim>\<open>pcrProtectionProfileComputeContext\<close>\<close>
  nctxs :: nat

definition PCRValues_of :: "heap \<Rightarrow> nat \<Rightarrow> pcr_values" where
  "PCRValues_of h x = (\<lambda>a. map_option (banks h) (map_of (pcrvals h x) a))"

definition list_values :: "heap \<Rightarrow> nat list \<Rightarrow> pcr_values list" where
  "list_values h l = map (PCRValues_of h) l"

definition ctx_values :: "heap \<Rightarrow> nat \<Rightarrow> pcr_values list" where
  "ctx_values h c = list_values h (vals (ctxs h c))"

text \<open>The value a set of PCR values has for an (algorithm, register) key, if it has
  one.\<close>

definition PCRValues_entry :: "pcr_values \<Rightarrow> alg \<Rightarrow> int \<Rightarrow> digest option" where
  "PCRValues_entry v a pcr = (case v a of None \<Rightarrow> None | Some m \<Rightarrow> m pcr)"

text \<open>\<^verbatim>\<open>v[alg][pcr]\<close> read from a map that need not have the entry: a missing key gives
  the nil digest.\<close>

definition PCRValues_get :: "pcr_values \<Rightarrow> alg \<Rightarrow> int \<Rightarrow> digest" where
  "PCRValues_get v a pcr =
     (case v a of None \<Rightarrow> [] | Some m \<Rightarrow> (case m pcr of None \<Rightarrow> [] | Some x \<Rightarrow> x))"

subsection \<open>pcrValuesList\<close>

text \<open>\<^verbatim>\<open>if _, ok := v[alg]; !ok { v[alg] = make(map[int]tpm2.Digest) }\<close>, returning the
  address \<^verbatim>\<open>v[alg]\<close> then has.\<close>

definition bank_of :: "nat \<Rightarrow> alg \<Rightarrow> heap \<Rightarrow> nat \<times> heap" where
  "bank_of v a h =
     (case map_of (pcrvals h v) a of
        Some b \<Rightarrow> (b, h)
      | None \<Rightarrow>
          (nbanks h,
           h\<lparr>banks := (banks h)(nbanks h := Map.empty),
             nbanks := Suc (nbanks h),
             pcrvals := (pcrvals h)(v := pcrvals h v @ [(a, nbanks h)])\<rparr>))"

text \<open>Modelled from the spec: \<^verbatim>\<open>tpm2.PCRValues.SetValue\<close> belongs to go-tpm2 and is not
  under src/. It sets the (alg, pcr) entry to the value, replacing any prior value; the
  entry is created on first write.\<close>

definition SetValue :: "alg \<Rightarrow> int \<Rightarrow> digest \<Rightarrow> nat \<Rightarrow> heap \<Rightarrow> heap" where
  "SetValue a pcr d v h =
     (let (b, h1) = bank_of v a h
      in h1\<lparr>banks := (banks h1)(b := (banks h1 b)(pcr \<mapsto> d))\<rparr>)"

definition setValue :: "nat list \<Rightarrow> alg \<Rightarrow> int \<Rightarrow> digest \<Rightarrow> heap \<Rightarrow> heap" where
  "setValue l a pcr d h = fold (SetValue a pcr d) l h"

text \<open>The body of the loop of \<^verbatim>\<open>extendValue\<close>.\<close>

definition extend1 :: "hashes \<Rightarrow> alg \<Rightarrow> int \<Rightarrow> digest \<Rightarrow> nat \<Rightarrow> heap \<Rightarrow> heap" where
  "extend1 H a pcr d v h =
     (let (b, h1) = bank_of v a h;
          h2 = (case banks h1 b pcr of
                  Some _ \<Rightarrow> h1
                | None \<Rightarrow> h1\<lparr>banks := (banks h1)(b := (banks h1 b)(pcr \<mapsto> replicate (Size H a) 0))\<rparr>);
          old = (case banks h2 b pcr of Some x \<Rightarrow> x | None \<Rightarrow> [])
      in h2\<lparr>banks := (banks h2)(b := (banks h2 b)(pcr \<mapsto> Sum H a (old @ d)))\<rparr>)"

definition extendValue :: "hashes \<Rightarrow> nat list \<Rightarrow> alg \<Rightarrow> int \<Rightarrow> digest \<Rightarrow> heap \<Rightarrow> heap" where
  "extendValue H l a pcr d h = fold (extend1 H a pcr d) l h"

text \<open>\<^verbatim>\<open>ov[alg] = make(map[int]tpm2.Digest)\<close> followed by the loop that stores every
  entry of \<^verbatim>\<open>v[alg]\<close> in it: the new inner map ends with the entries of the old one.\<close>

definition copy_bank :: "nat \<Rightarrow> alg \<times> nat \<Rightarrow> heap \<Rightarrow> heap" where
  "copy_bank ov ab h =
     h\<lparr>banks := (banks h)(nbanks h := banks h (snd ab)),
       nbanks := Suc (nbanks h),
       pcrvals := (pcrvals h)(ov := pcrvals h ov @ [(fst ab, nbanks h)])\<rparr>"

definition copy_values :: "nat \<Rightarrow> heap \<Rightarrow> nat \<times> heap" where
  "copy_values v h =
     (let ov = npcrvals h;
          h1 = h\<lparr>pcrvals := (pcrvals h)(ov := []), npcrvals := Suc ov\<rparr>
      in (ov, fold (copy_bank ov) (pcrvals h v) h1))"

fun copy :: "nat list \<Rightarrow> heap \<Rightarrow> nat list \<times> heap" where
  "copy [] h = ([], h)"
| "copy (v # l) h =
     (let (ov, h1) = copy_values v h;
          (out, h2) = copy l h1
      in (ov # out, h2))"

subsection \<open>The traversal iterator\<close>

definition descendInToProfiles :: "PCRProtectionProfile list \<Rightarrow> instr list list \<Rightarrow> instr list list" where
  "descendInToProfiles profiles it = profiles @ it"

text \<open>\<^verbatim>\<open>next\<close>: \<open>None\<close> is the panic "no more instructions".\<close>

fun iter_next :: "instr list list \<Rightarrow> (next_instr \<times> instr list list) option" where
  "iter_next [] = None"
| "iter_next ([] # rest) = Some (EndProfileInstr, rest)"
| "iter_next ((AddProfileOR profiles # is) # rest) =
     (if profiles = [] then iter_next (is # rest)
      else Some (Instr (AddProfileOR profiles), descendInToProfiles profiles (is # rest)))"
| "iter_next ((i # is) # rest) = Some (Instr i, is # rest)"

definition traverseInstructions :: "PCRProtectionProfile \<Rightarrow> instr list list" where
  "traverseInstructions p = descendInToProfiles [p] []"

subsection \<open>Compute contexts\<close>

fun new_contexts :: "nat \<Rightarrow> nat \<Rightarrow> heap \<Rightarrow> nat list \<times> heap" where
  "new_contexts 0 c h = ([], h)"
| "new_contexts (Suc n) c h =
     (let (l, h1) = copy (vals (ctxs h c)) h;
          k = nctxs h1;
          h2 = h1\<lparr>ctxs := (ctxs h1)(k := \<lparr>parent = Some c, vals = l\<rparr>), nctxs := Suc k\<rparr>;
          (out, h3) = new_contexts n c h2
      in (k # out, h3))"

definition handleBranches :: "nat \<Rightarrow> nat \<Rightarrow> heap \<Rightarrow> nat list \<times> heap" where
  "handleBranches n c h =
     (let (out, h1) = new_contexts n c h
      in (out, h1\<lparr>ctxs := (ctxs h1)(c := (ctxs h1 c)\<lparr>vals := []\<rparr>)\<rparr>))"

text \<open>\<open>None\<close> is the nil dereference on the root context.\<close>

definition finishBranch :: "nat \<Rightarrow> heap \<Rightarrow> heap option" where
  "finishBranch c h =
     (case parent (ctxs h c) of
        None \<Rightarrow> None
      | Some q \<Rightarrow>
          Some (h\<lparr>ctxs := (ctxs h)(q := (ctxs h q)\<lparr>vals := vals (ctxs h q) @ vals (ctxs h c)\<rparr>)\<rparr>))"

definition isRoot :: "nat \<Rightarrow> heap \<Rightarrow> bool" where
  "isRoot c h \<longleftrightarrow> parent (ctxs h c) = None"

text \<open>\<^verbatim>\<open>top\<close>: \<open>None\<close> is the index panic on an empty stack.\<close>

definition stack_top :: "nat list \<Rightarrow> nat option" where
  "stack_top s = (case s of [] \<Rightarrow> None | c # _ \<Rightarrow> Some c)"

subsection \<open>ComputePCRValues\<close>

record state =
  iter :: "instr list list"
  contexts :: "nat list"
  heap :: heap

datatype outcome = Continue state | Return "pcr_values list" | Fail error

text \<open>The body of the \<^verbatim>\<open>switch\<close> in the loop of \<^verbatim>\<open>ComputePCRValues\<close>, entered
  with the instruction \<^verbatim>\<open>iter.next()\<close> returned. The list it returns at the end of
  the root profile is read out of the store, as the caller sees it.\<close>

fun switch_instr :: "hashes \<Rightarrow> TPMContext option \<Rightarrow> next_instr \<Rightarrow> state \<Rightarrow> outcome" where
  "switch_instr H tpm (Instr (AddPCRValue a pcr d)) s =
     (case stack_top (contexts s) of
        None \<Rightarrow> Fail (Panic ''index out of range'')
      | Some c \<Rightarrow> Continue (s\<lparr>heap := setValue (vals (ctxs (heap s) c)) a pcr d (heap s)\<rparr>))"
| "switch_instr H tpm (Instr (AddPCRValueFromTPM a pcr)) s =
     (case tpm of
        None \<Rightarrow> Fail (NoTPMContext pcr a)
      | Some PCRRead \<Rightarrow>
         (case PCRRead a pcr of
            Inl err \<Rightarrow> Fail (PCRReadFailed pcr a err)
          | Inr v \<Rightarrow>
             (case stack_top (contexts s) of
                None \<Rightarrow> Fail (Panic ''index out of range'')
              | Some c \<Rightarrow>
                  Continue (s\<lparr>heap := setValue (vals (ctxs (heap s) c)) a pcr
                                        (PCRValues_get v a pcr) (heap s)\<rparr>))))"
| "switch_instr H tpm (Instr (ExtendPCR a pcr d)) s =
     (case stack_top (contexts s) of
        None \<Rightarrow> Fail (Panic ''index out of range'')
      | Some c \<Rightarrow> Continue (s\<lparr>heap := extendValue H (vals (ctxs (heap s) c)) a pcr d (heap s)\<rparr>))"
| "switch_instr H tpm (Instr (AddProfileOR profiles)) s =
     (case stack_top (contexts s) of
        None \<Rightarrow> Fail (Panic ''index out of range'')
      | Some c \<Rightarrow>
          (let (newContexts, h) = handleBranches (length profiles) c (heap s)
           in Continue (s\<lparr>contexts := newContexts @ contexts s, heap := h\<rparr>)))"
| "switch_instr H tpm EndProfileInstr s =
     (case stack_top (contexts s) of
        None \<Rightarrow> Fail (Panic ''index out of range'')
      | Some c \<Rightarrow>
          if isRoot c (heap s) then Return (ctx_values (heap s) c)
          else (case finishBranch c (heap s) of
                  None \<Rightarrow> Fail (Panic ''nil pointer dereference'')
                | Some h \<Rightarrow> Continue (s\<lparr>contexts := tl (contexts s), heap := h\<rparr>)))"

text \<open>One turn of the loop: \<^verbatim>\<open>iter.next()\<close>, which advances the iterator or panics, and
  the switch on what it returned.\<close>

definition step :: "hashes \<Rightarrow> TPMContext option \<Rightarrow> state \<Rightarrow> outcome" where
  "step H tpm s =
     (case iter_next (iter s) of
        None \<Rightarrow> Fail (Panic ''no more instructions'')
      | Some (i, it) \<Rightarrow> switch_instr H tpm i (s\<lparr>iter := it\<rparr>))"

function run :: "hashes \<Rightarrow> TPMContext option \<Rightarrow> state \<Rightarrow> error + pcr_values list" where
  "run H tpm s =
     (case step H tpm s of
        Continue s' \<Rightarrow> run H tpm s'
      | Return l \<Rightarrow> Inr l
      | Fail e \<Rightarrow> Inl e)"
  by pat_completeness auto
termination
proof (relation "measure (\<lambda>(H, tpm, s). size_list (size_list size) (iter s))")
  show "wf (measure (\<lambda>(H, tpm, s). size_list (size_list size) (iter s)))"
    by simp
next
  fix H :: hashes and tpm :: "TPMContext option" and s s' :: state
  assume st: "step H tpm s = Continue s'"
  have smaller: "size_list (size_list size) it' < size_list (size_list size) it"
    if "iter_next it = Some (i, it')" for it i it'
    using that
    by (induction it arbitrary: i it' rule: iter_next.induct)
       (auto simp: descendInToProfiles_def split: if_splits)
  have same: "iter t' = iter t" if "switch_instr H tpm i t = Continue t'" for i t t'
    using that
    by (cases "(H, tpm, i, t)" rule: switch_instr.cases)
       (auto split: option.splits sum.splits if_splits prod.splits)
  from st obtain i where "iter_next (iter s) = Some (i, iter s')"
    by (auto simp: step_def split: option.splits dest: same)
  then have "size_list (size_list size) (iter s') < size_list (size_list size) (iter s)"
    by (rule smaller)
  then show "((H, tpm, s'), (H, tpm, s)) \<in> measure (\<lambda>(H, tpm, s). size_list (size_list size) (iter s))"
    by simp
qed

declare run.simps [simp del]

text \<open>The stack \<^verbatim>\<open>{{values: pcrValuesList{make(tpm2.PCRValues)}}}\<close>: context 0, whose
  list holds the empty \<^verbatim>\<open>PCRValues\<close> 0.\<close>

definition heap0 :: heap where
  "heap0 = \<lparr>banks = (\<lambda>_. Map.empty), nbanks = 0,
            pcrvals = (\<lambda>_. []), npcrvals = 1,
            ctxs = (\<lambda>_. \<lparr>parent = None, vals = []\<rparr>)(0 := \<lparr>parent = None, vals = [0]\<rparr>), nctxs = 1\<rparr>"

definition state0 :: "PCRProtectionProfile \<Rightarrow> state" where
  "state0 p = \<lparr>iter = traverseInstructions p, contexts = [0], heap = heap0\<rparr>"

definition ComputePCRValues ::
    "hashes \<Rightarrow> PCRProtectionProfile \<Rightarrow> TPMContext option \<Rightarrow> error + pcr_values list" where
  "ComputePCRValues H p tpm = run H tpm (state0 p)"

subsection \<open>ComputePCRDigests\<close>

type_synonym PCRSelectionList = "(alg \<times> int) set"

text \<open>Modelled from the spec: \<^verbatim>\<open>tpm2.PCRValues.SelectionList\<close> belongs to go-tpm2 and is
  not under src/. The selection of a set of PCR values is the set of (algorithm, register)
  keys present in it; \<^verbatim>\<open>Equal\<close> on two selections is equality of these sets.\<close>

definition SelectionList :: "pcr_values \<Rightarrow> PCRSelectionList" where
  "SelectionList v = {(a, pcr). PCRValues_entry v a pcr \<noteq> None}"

text \<open>Modelled from the spec: \<^verbatim>\<open>tpm2.ComputePCRDigestSimple\<close> belongs to go-tpm2 and is
  not under src/. It returns the selection of the values and their composite digest, a
  hash over a canonical encoding of exactly the selected registers' values (the parameter
  \<open>PCRDigest\<close>). Its error result is dropped by the caller.\<close>

definition ComputePCRDigestSimple :: "hashes \<Rightarrow> alg \<Rightarrow> pcr_values \<Rightarrow> PCRSelectionList \<times> digest" where
  "ComputePCRDigestSimple H a v = (SelectionList v, PCRDigest H a v)"

text \<open>The first loop of \<^verbatim>\<open>ComputePCRDigests\<close>, with \<^verbatim>\<open>pcrDigests\<close> as accumulator.\<close>

fun branch_digests ::
    "hashes \<Rightarrow> alg \<Rightarrow> PCRSelectionList \<Rightarrow> pcr_values list \<Rightarrow> digest list \<Rightarrow> error + digest list" where
  "branch_digests H a pcrs [] pcrDigests = Inr pcrDigests"
| "branch_digests H a pcrs (v # values) pcrDigests =
     (let (p, digest) = ComputePCRDigestSimple H a v
      in if p \<noteq> pcrs then Inl BranchesDiffer
         else branch_digests H a pcrs values (pcrDigests @ [digest]))"

text \<open>The second loop, with \<^verbatim>\<open>uniquePcrDigests\<close> as accumulator; \<^verbatim>\<open>found\<close> is
  whether some element of the accumulator is \<^verbatim>\<open>bytes.Equal\<close> to \<open>d\<close>.\<close>

fun unique_digests :: "digest list \<Rightarrow> digest list \<Rightarrow> digest list" where
  "unique_digests [] uniquePcrDigests = uniquePcrDigests"
| "unique_digests (d # ds) uniquePcrDigests =
     (if list_ex (\<lambda>f. d = f) uniquePcrDigests then unique_digests ds uniquePcrDigests
      else unique_digests ds (uniquePcrDigests @ [d]))"

text \<open>\<^verbatim>\<open>values[0]\<close> panics on an empty list.\<close>

definition ComputePCRDigests ::
    "hashes \<Rightarrow> PCRProtectionProfile \<Rightarrow> TPMContext option \<Rightarrow> alg \<Rightarrow>
     error + PCRSelectionList \<times> digest list" where
  "ComputePCRDigests H p tpm a =
     (case ComputePCRValues H p tpm of
        Inl err \<Rightarrow> Inl err
      | Inr values \<Rightarrow>
         (case values of
            [] \<Rightarrow> Inl (Panic ''index out of range'')
          | v0 # _ \<Rightarrow>
             (let pcrs = SelectionList v0
              in case branch_digests H a pcrs values [] of
                   Inl err \<Rightarrow> Inl err
                 | Inr pcrDigests \<Rightarrow> Inr (pcrs, unique_digests pcrDigests []))))"

text \<open>The state after \<open>n\<close> turns of the loop, if the loop runs that long.\<close>

fun run_steps :: "nat \<Rightarrow> hashes \<Rightarrow> TPMContext option \<Rightarrow> state \<Rightarrow> state option" where
  "run_steps 0 H tpm s = Some s"
| "run_steps (Suc n) H tpm s =
     (case step H tpm s of Continue s' \<Rightarrow> run_steps n H tpm s' | _ \<Rightarrow> None)"

section \<open>Reference semantics of a profile\<close>

text \<open>What the instructions mean for the content of one set of PCR values: an
  \<^verbatim>\<open>AddPCRValue\<close> replaces the value of its (algorithm, register) key, an \<^verbatim>\<open>ExtendPCR\<close>
  replaces it with the hash of the old value (all zeroes when there is none yet)
  followed by the supplied one.\<close>

definition set_value :: "alg \<Rightarrow> int \<Rightarrow> digest \<Rightarrow> pcr_values \<Rightarrow> pcr_values" where
  "set_value a pcr d pv = pv(a \<mapsto> (case pv a of None \<Rightarrow> Map.empty | Some m \<Rightarrow> m)(pcr \<mapsto> d))"

definition extend_value :: "hashes \<Rightarrow> alg \<Rightarrow> int \<Rightarrow> digest \<Rightarrow> pcr_values \<Rightarrow> pcr_values" where
  "extend_value H a pcr d pv =
     (let m = (case pv a of None \<Rightarrow> Map.empty | Some m \<Rightarrow> m);
          old = (case m pcr of None \<Rightarrow> replicate (Size H a) 0 | Some x \<Rightarrow> x)
      in pv(a \<mapsto> m(pcr \<mapsto> Sum H a (old @ d))))"

text \<open>A simple profile has no branch: none of its instructions is an \<^verbatim>\<open>AddProfileOR\<close>.\<close>

fun is_branch :: "instr \<Rightarrow> bool" where
  "is_branch (AddProfileOR ps) = True"
| "is_branch _ = False"

definition simple :: "PCRProtectionProfile \<Rightarrow> bool" where
  "simple p = list_all (\<lambda>i. \<not> is_branch i) p"

text \<open>Sequential application of the instructions of a simple profile, in declaration
  order, to one set of PCR values. A read of the TPM that fails ends the application
  with the error of \<^verbatim>\<open>ComputePCRValues\<close>. (A branch has no meaning for a single set
  and is passed over; the function is only used on simple profiles.)\<close>

fun apply_instrs :: "hashes \<Rightarrow> TPMContext option \<Rightarrow> instr list \<Rightarrow> pcr_values \<Rightarrow> error + pcr_values" where
  "apply_instrs H tpm [] v = Inr v"
| "apply_instrs H tpm (AddPCRValue a pcr d # is) v = apply_instrs H tpm is (set_value a pcr d v)"
| "apply_instrs H tpm (AddPCRValueFromTPM a pcr # is) v =
     (case tpm of
        None \<Rightarrow> Inl (NoTPMContext pcr a)
      | Some PCRRead \<Rightarrow>
          (case PCRRead a pcr of
             Inl err \<Rightarrow> Inl (PCRReadFailed pcr a err)
           | Inr w \<Rightarrow> apply_instrs H tpm is (set_value a pcr (PCRValues_get w a pcr) v)))"
| "apply_instrs H tpm (ExtendPCR a pcr d # is) v = apply_instrs H tpm is (extend_value H a pcr d v)"
| "apply_instrs H tpm (AddProfileOR ps # is) v = apply_instrs H tpm is v"

text \<open>The whole tree, on the list of value sets of the paths alive at its start: a
  branch evaluates each sub-profile on the list and concatenates the results, in the
  order of the sub-profiles; a branch without sub-profiles does nothing.\<close>

fun eval :: "hashes \<Rightarrow> TPMContext option \<Rightarrow> instr list \<Rightarrow> pcr_values list \<Rightarrow> error + pcr_values list"
  and eval_branches :: "hashes \<Rightarrow> TPMContext option \<Rightarrow> instr list list \<Rightarrow> pcr_values list \<Rightarrow> error + pcr_values list"
  where
  "eval H tpm [] l = Inr l"
| "eval H tpm (AddPCRValue a pcr d # is) l = eval H tpm is (map (set_value a pcr d) l)"
| "eval H tpm (AddPCRValueFromTPM a pcr # is) l =
     (case tpm of
        None \<Rightarrow> Inl (NoTPMContext pcr a)
      | Some PCRRead \<Rightarrow>
          (case PCRRead a pcr of
             Inl err \<Rightarrow> Inl (PCRReadFailed pcr a err)
           | Inr v \<Rightarrow> eval H tpm is (map (set_value a pcr (PCRValues_get v a pcr)) l)))"
| "eval H tpm (ExtendPCR a pcr d # is) l = eval H tpm is (map (extend_value H a pcr d) l)"
| "eval H tpm (AddProfileOR ps # is) l =
     (if ps = [] then eval H tpm is l
      else (case eval_branches H tpm ps l of
              Inl e \<Rightarrow> Inl e
            | Inr l' \<Rightarrow> eval H tpm is l'))"
| "eval_branches H tpm [] l = Inr []"
| "eval_branches H tpm (p # ps) l =
     (case eval H tpm p l of
        Inl e \<Rightarrow> Inl e
      | Inr l1 \<Rightarrow>
          (case eval_branches H tpm ps l of
             Inl e \<Rightarrow> Inl e
           | Inr l2 \<Rightarrow> Inr (l1 @ l2)))"

text \<open>Whether an instruction, or one below it, reads the TPM.\<close>

fun uses_tpm :: "instr \<Rightarrow> bool" where
  "uses_tpm (AddPCRValueFromTPM a pcr) = True"
| "uses_tpm (AddProfileOR ps) = (\<exists>p\<in>set ps. \<exists>i\<in>set p. uses_tpm i)"
| "uses_tpm _ = False"

text \<open>A profile with one \<^verbatim>\<open>AddProfileOR()\<close> without sub-profiles taken out, at the top
  or inside a sub-profile at any depth.\<close>

inductive drop_empty :: "instr list \<Rightarrow> instr list \<Rightarrow> bool" where
  here: "drop_empty (xs @ AddProfileOR [] # ys) (xs @ ys)"
| inside: "drop_empty q q' \<Longrightarrow>
     drop_empty (xs @ AddProfileOR (qs @ q # rs) # ys) (xs @ AddProfileOR (qs @ q' # rs) # ys)"

text \<open>A list without its repetitions: each element stays at its first occurrence.\<close>

function dedup_first :: "'a list \<Rightarrow> 'a list" where
  "dedup_first [] = []"
| "dedup_first (x # xs) = x # dedup_first (filter (\<lambda>y. y \<noteq> x) xs)"
  by pat_completeness auto
termination
  by (relation "measure length") (auto simp: less_Suc_eq_le)

text \<open>The instructions of a sub-profile that set or extend a value, applied in order to
  the list \<open>l\<close> of one context as \<^verbatim>\<open>ComputePCRValues\<close> applies them.\<close>

fun apply_updates :: "hashes \<Rightarrow> instr list \<Rightarrow> nat list \<Rightarrow> heap \<Rightarrow> heap" where
  "apply_updates H [] l h = h"
| "apply_updates H (AddPCRValue a pcr d # is) l h = apply_updates H is l (setValue l a pcr d h)"
| "apply_updates H (ExtendPCR a pcr d # is) l h = apply_updates H is l (extendValue H l a pcr d h)"
| "apply_updates H (i # is) l h = apply_updates H is l h"

text \<open>The addresses of the \<^verbatim>\<open>PCRValues\<close> in the lists of the contexts of a stack, and the
  addresses of the inner maps of a list of \<^verbatim>\<open>PCRValues\<close>.\<close>

definition all_vals :: "heap \<Rightarrow> nat list \<Rightarrow> nat list" where
  "all_vals h st = concat (map (\<lambda>c. vals (ctxs h c)) st)"

definition all_banks :: "heap \<Rightarrow> nat list \<Rightarrow> nat list" where
  "all_banks h l = concat (map (\<lambda>x. map snd (pcrvals h x)) l)"

text \<open>A small hash provider and a TPM for the examples: the hash is the last two bytes
  in reverse, the composite digest lists PCR 7 and PCR 12 of bank 11, and the TPM holds
  PCR 7 of bank 11 only.\<close>

definition example_hashes :: hashes where
  "example_hashes =
     \<lparr>Size = (\<lambda>a. 2), Sum = (\<lambda>a x. take 2 (rev x)),
      PCRDigest = (\<lambda>a v. PCRValues_get v 11 7 @ PCRValues_get v 11 12)\<rparr>"

definition example_tpm :: TPMContext where
  "example_tpm a pcr =
     (if a = 11 \<and> pcr = 7 then Inr [11 \<mapsto> [7 \<mapsto> [7, 7]]] else Inl ''no such PCR'')"

section \<open>Invariants of the store\<close>

text \<open>The outer maps in use have distinct keys and point to inner maps in use, and no
  inner map belongs to two outer maps or to two keys of one.\<close>

definition heap_inv :: "heap \<Rightarrow> bool" where
  "heap_inv h \<longleftrightarrow>
     (\<forall>x < npcrvals h. distinct (map fst (pcrvals h x))) \<and>
     (\<forall>x < npcrvals h. \<forall>ab \<in> set (pcrvals h x). snd ab < nbanks h) \<and>
     (\<forall>x < npcrvals h. \<forall>y < npcrvals h. \<forall>ab \<in> set (pcrvals h x). \<forall>ab' \<in> set (pcrvals h y).
         snd ab = snd ab' \<longrightarrow> x = y \<and> ab = ab')"

text \<open>\<open>SetValue\<close> and the body of \<^verbatim>\<open>extendValue\<close> have one shape: the inner map of the
  algorithm, made if missing, is replaced by a function of itself. \<open>update_value\<close> is the
  same on the content.\<close>

definition update_bank :: "((int \<rightharpoonup> digest) \<Rightarrow> (int \<rightharpoonup> digest)) \<Rightarrow> alg \<Rightarrow> nat \<Rightarrow> heap \<Rightarrow> heap" where
  "update_bank f a v h = (let (b, h1) = bank_of v a h in h1\<lparr>banks := (banks h1)(b := f (banks h1 b))\<rparr>)"

definition update_value :: "((int \<rightharpoonup> digest) \<Rightarrow> (int \<rightharpoonup> digest)) \<Rightarrow> alg \<Rightarrow> pcr_values \<Rightarrow> pcr_values" where
  "update_value f a pv = pv(a \<mapsto> f (case pv a of None \<Rightarrow> Map.empty | Some m \<Rightarrow> m))"

text \<open>The second store has the maps of the first, unchanged, and possibly more.\<close>

definition heap_ext :: "heap \<Rightarrow> heap \<Rightarrow> bool" where
  "heap_ext h h' \<longleftrightarrow>
     npcrvals h \<le> npcrvals h' \<and> nbanks h \<le> nbanks h' \<and>
     (\<forall>y < npcrvals h. pcrvals h' y = pcrvals h y) \<and>
     (\<forall>b < nbanks h. banks h' b = banks h b)"

text \<open>The parent of every context of the stack is further down the stack; the bottom
  one is the root.\<close>

fun parents_ok :: "heap \<Rightarrow> nat list \<Rightarrow> bool" where
  "parents_ok h [] = False"
| "parents_ok h [c] = (parent (ctxs h c) = None)"
| "parents_ok h (c # st) = ((\<exists>q \<in> set st. parent (ctxs h c) = Some q) \<and> parents_ok h st)"

text \<open>The contexts of the stack are different objects in use, and so are the
  \<^verbatim>\<open>PCRValues\<close> of their lists.\<close>

definition stack_inv :: "heap \<Rightarrow> nat list \<Rightarrow> bool" where
  "stack_inv h st \<longleftrightarrow>
     heap_inv h \<and> distinct st \<and> (\<forall>c\<in>set st. c < nctxs h) \<and>
     distinct (all_vals h st) \<and> (\<forall>x\<in>set (all_vals h st). x < npcrvals h) \<and>
     parents_ok h st"

text \<open>The iterator has one level per context of the stack.\<close>

definition state_inv :: "state \<Rightarrow> bool" where
  "state_inv s \<longleftrightarrow> stack_inv (heap s) (contexts s) \<and> length (iter s) = length (contexts s)"

text \<open>From \<open>s\<close> the loop either fails with the error \<open>r\<close>, or comes to a state with the
  iterator \<open>it\<close> and the stack \<open>c # crest\<close> in which the list of \<open>c\<close> has the content \<open>r\<close>
  and the contexts of \<open>crest\<close> are as they were in \<open>s\<close>.\<close>

definition level_done ::
    "hashes \<Rightarrow> TPMContext option \<Rightarrow> state \<Rightarrow> instr list list \<Rightarrow> nat \<Rightarrow> nat list \<Rightarrow>
     error + pcr_values list \<Rightarrow> bool" where
  "level_done H tpm s it c crest r \<longleftrightarrow>
     (case r of
        Inl e \<Rightarrow> run H tpm s = Inl e
      | Inr l' \<Rightarrow>
          (\<exists>s'. run H tpm s = run H tpm s' \<and> state_inv s' \<and> iter s' = it \<and>
             contexts s' = c # crest \<and> ctx_values (heap s') c = l' \<and>
             parent (ctxs (heap s') c) = parent (ctxs (heap s) c) \<and>
             (\<forall>q\<in>set crest. ctxs (heap s') q = ctxs (heap s) q \<and>
                 ctx_values (heap s') q = ctx_values (heap s) q)))"

section \<open>Properties of the store operations and of the evaluation\<close>

lemma SetValue_update: "SetValue a pcr d = update_bank (\<lambda>m. m(pcr \<mapsto> d)) a"
  by (simp add: SetValue_def update_bank_def fun_eq_iff)

lemma extend1_update:
  "extend1 H a pcr d =
     update_bank (\<lambda>m. m(pcr \<mapsto> Sum H a ((case m pcr of None \<Rightarrow> replicate (Size H a) 0 | Some x \<Rightarrow> x) @ d))) a"
  by (auto simp: extend1_def update_bank_def fun_eq_iff Let_def split: prod.splits option.splits)

lemma update_bank_counters [simp]:
  "npcrvals (update_bank f a v h) = npcrvals h"
  "ctxs (update_bank f a v h) = ctxs h"
  "nctxs (update_bank f a v h) = nctxs h"
  by (auto simp: update_bank_def bank_of_def split: option.splits)

lemma heap_invD1: "heap_inv h \<Longrightarrow> x < npcrvals h \<Longrightarrow> distinct (map fst (pcrvals h x))"
  by (simp add: heap_inv_def)

lemma heap_invD2: "heap_inv h \<Longrightarrow> x < npcrvals h \<Longrightarrow> (a, b) \<in> set (pcrvals h x) \<Longrightarrow> b < nbanks h"
  by (fastforce simp: heap_inv_def)

lemma heap_invD3:
  "heap_inv h \<Longrightarrow> x < npcrvals h \<Longrightarrow> y < npcrvals h \<Longrightarrow> (a, b) \<in> set (pcrvals h x) \<Longrightarrow>
     (a', b) \<in> set (pcrvals h y) \<Longrightarrow> x = y \<and> a = a'"
  unfolding heap_inv_def by fastforce

lemma heap_invI:
  assumes "\<And>x. x < npcrvals h \<Longrightarrow> distinct (map fst (pcrvals h x))"
    and "\<And>x a b. x < npcrvals h \<Longrightarrow> (a, b) \<in> set (pcrvals h x) \<Longrightarrow> b < nbanks h"
    and "\<And>x y a b a'. x < npcrvals h \<Longrightarrow> y < npcrvals h \<Longrightarrow> (a, b) \<in> set (pcrvals h x) \<Longrightarrow>
           (a', b) \<in> set (pcrvals h y) \<Longrightarrow> x = y \<and> a = a'"
  shows "heap_inv h"
  unfolding heap_inv_def using assms by (auto; blast)

lemma update_bank_inv:
  assumes inv: "heap_inv h" and v: "v < npcrvals h"
  shows "heap_inv (update_bank f a v h)"
proof (cases "map_of (pcrvals h v) a")
  case (Some b)
  with assms show ?thesis
    by (simp add: update_bank_def bank_of_def heap_inv_def)
next
  case None
  then have na: "a \<notin> fst ` set (pcrvals h v)"
    by (simp add: map_of_eq_None_iff)
  have h': "update_bank f a v h =
      h\<lparr>banks := (banks h)(nbanks h := f Map.empty), nbanks := Suc (nbanks h),
        pcrvals := (pcrvals h)(v := pcrvals h v @ [(a, nbanks h)])\<rparr>"
    using None by (simp add: update_bank_def bank_of_def)
  have fresh: "\<And>x a'. x < npcrvals h \<Longrightarrow> (a', nbanks h) \<notin> set (pcrvals h x)"
    using heap_invD2 [OF inv] by fastforce
  show ?thesis
    unfolding h'
  proof (rule heap_invI, goal_cases)
    case (1 x)
    then show ?case using heap_invD1 [OF inv, of x] na by auto
  next
    case (2 x a b)
    then show ?case using heap_invD2 [OF inv, of x a b] by (auto split: if_splits)
  next
    case (3 x y a b a')
    then show ?case using heap_invD3 [OF inv, of x y a b a'] fresh [of x] fresh [of y]
      by (auto split: if_splits)
  qed
qed

lemma map_of_mem: "distinct (map fst xs) \<Longrightarrow> (map_of xs a = Some b) = ((a, b) \<in> set xs)"
  by simp

lemma map_option_eqI: "(\<And>b. m = Some b \<Longrightarrow> g b = g' b) \<Longrightarrow> map_option g m = map_option g' m"
  by (cases m) auto

lemma update_bank_self:
  assumes inv: "heap_inv h" and v: "v < npcrvals h"
  shows "PCRValues_of (update_bank f a v h) v = update_value f a (PCRValues_of h v)"
proof (cases "map_of (pcrvals h v) a")
  case (Some b)
  have d: "distinct (map fst (pcrvals h v))" by (rule heap_invD1 [OF inv v])
  have other: "b' \<noteq> b" if "map_of (pcrvals h v) a' = Some b'" "a' \<noteq> a" for a' b'
    using heap_invD3 [OF inv v v, of a b a'] that Some d by (auto simp: map_of_mem)
  show ?thesis
    using Some other
    by (auto simp: update_bank_def bank_of_def PCRValues_of_def update_value_def fun_eq_iff
        split: option.splits intro!: map_option_eqI)
next
  case None
  have d: "distinct (map fst (pcrvals h v))" by (rule heap_invD1 [OF inv v])
  have old: "b' \<noteq> nbanks h" if "map_of (pcrvals h v) a' = Some b'" for a' b'
    using heap_invD2 [OF inv v, of a' b'] that d by (auto simp: map_of_mem)
  show ?thesis
    using None old
    by (auto simp: update_bank_def bank_of_def PCRValues_of_def update_value_def fun_eq_iff
        map_add_def split: option.splits)
qed

lemma update_bank_other:
  assumes inv: "heap_inv h" and v: "v < npcrvals h" and y: "y < npcrvals h" "y \<noteq> v"
  shows "PCRValues_of (update_bank f a v h) y = PCRValues_of h y"
proof -
  have d: "distinct (map fst (pcrvals h y))" by (rule heap_invD1 [OF inv y(1)])
  have dv: "distinct (map fst (pcrvals h v))" by (rule heap_invD1 [OF inv v])
  have old: "b' \<noteq> nbanks h" if "map_of (pcrvals h y) a' = Some b'" for a' b'
    using heap_invD2 [OF inv y(1), of a' b'] that d by (auto simp: map_of_mem)
  have other: "b' \<noteq> b" if "map_of (pcrvals h y) a' = Some b'" "map_of (pcrvals h v) a = Some b" for a' b' b
    using heap_invD3 [OF inv v y(1), of a b a'] that y(2) d dv by (auto simp: map_of_mem)
  show ?thesis
    using y(2) old other
    by (auto simp: update_bank_def bank_of_def PCRValues_of_def fun_eq_iff split: option.splits
        intro!: map_option_eqI)
qed

lemma fold_update_bank:
  assumes "heap_inv h" "distinct l" "\<forall>x\<in>set l. x < npcrvals h"
  shows "heap_inv (fold (update_bank f a) l h)"
    and "npcrvals (fold (update_bank f a) l h) = npcrvals h"
    and "ctxs (fold (update_bank f a) l h) = ctxs h"
    and "nctxs (fold (update_bank f a) l h) = nctxs h"
    and "list_values (fold (update_bank f a) l h) l = map (update_value f a) (list_values h l)"
    and "\<forall>y < npcrvals h. y \<notin> set l \<longrightarrow> PCRValues_of (fold (update_bank f a) l h) y = PCRValues_of h y"
  using assms
proof (induction l arbitrary: h)
  case Nil
  {
    case 1 then show ?case by simp
  next
    case 2 then show ?case by simp
  next
    case 3 then show ?case by simp
  next
    case 4 then show ?case by simp
  next
    case 5 then show ?case by (simp add: list_values_def)
  next
    case 6 then show ?case by simp
  }
next
  case (Cons v l)
  {
    case 1
    then show ?case using Cons.IH(1) [of "update_bank f a v h"] by (simp add: update_bank_inv)
  next
    case 2
    then show ?case using Cons.IH(2) [of "update_bank f a v h"] by (simp add: update_bank_inv)
  next
    case 3
    then show ?case using Cons.IH(3) [of "update_bank f a v h"] by (simp add: update_bank_inv)
  next
    case 4
    then show ?case using Cons.IH(4) [of "update_bank f a v h"] by (simp add: update_bank_inv)
  next
    case 5
    then have "x \<in> set l \<Longrightarrow> PCRValues_of (update_bank f a v h) x = PCRValues_of h x" for x
      by (intro update_bank_other) auto
    with 5 show ?case
      using Cons.IH(5) [of "update_bank f a v h"] Cons.IH(6) [of "update_bank f a v h"]
      by (auto simp: update_bank_inv list_values_def update_bank_self)
  next
    case 6
    then show ?case
      using Cons.IH(6) [of "update_bank f a v h"]
      by (auto simp: update_bank_inv update_bank_other)
  }
qed

lemma heap_ext_refl [simp]: "heap_ext h h"
  by (simp add: heap_ext_def)

lemma heap_ext_trans: "heap_ext h h1 \<Longrightarrow> heap_ext h1 h2 \<Longrightarrow> heap_ext h h2"
  by (auto simp: heap_ext_def)

lemma heap_ext_values:
  assumes "heap_inv h" "heap_ext h h'" "y < npcrvals h"
  shows "PCRValues_of h' y = PCRValues_of h y"
proof -
  have d: "distinct (map fst (pcrvals h y))" by (rule heap_invD1 [OF assms(1,3)])
  have "b < nbanks h" if "map_of (pcrvals h y) a = Some b" for a b
    using heap_invD2 [OF assms(1,3), of a b] that d by (simp add: map_of_mem)
  then show ?thesis
    using assms(2,3) by (auto simp: PCRValues_of_def heap_ext_def fun_eq_iff intro!: map_option_eqI)
qed

lemma copy_bank_fields [simp]:
  "npcrvals (copy_bank ov ab g) = npcrvals g"
  "nbanks (copy_bank ov ab g) = Suc (nbanks g)"
  "ctxs (copy_bank ov ab g) = ctxs g"
  "nctxs (copy_bank ov ab g) = nctxs g"
  "pcrvals (copy_bank ov ab g) y = (if y = ov then pcrvals g ov @ [(fst ab, nbanks g)] else pcrvals g y)"
  "banks (copy_bank ov ab g) b = (if b = nbanks g then banks g (snd ab) else banks g b)"
  by (simp_all add: copy_bank_def)

lemma copy_bank_inv:
  assumes inv: "heap_inv g" and ov: "ov < npcrvals g" and na: "fst ab \<notin> fst ` set (pcrvals g ov)"
  shows "heap_inv (copy_bank ov ab g)"
proof -
  have fresh: "\<And>x a'. x < npcrvals g \<Longrightarrow> (a', nbanks g) \<notin> set (pcrvals g x)"
    using heap_invD2 [OF inv] by fastforce
  show ?thesis
    unfolding copy_bank_def
  proof (rule heap_invI, goal_cases)
    case (1 x)
    then show ?case using heap_invD1 [OF inv, of x] na by auto
  next
    case (2 x a b)
    then show ?case using heap_invD2 [OF inv, of x a b] by (auto split: if_splits)
  next
    case (3 x y a b a')
    then show ?case using heap_invD3 [OF inv, of x y a b a'] fresh [of x] fresh [of y]
      by (auto split: if_splits)
  qed
qed

lemma fold_copy_bank:
  assumes "heap_inv g" "ov < npcrvals g" "\<forall>ab\<in>set xs. snd ab < nbanks g"
    "distinct (map fst xs)" "fst ` set xs \<inter> fst ` set (pcrvals g ov) = {}"
  shows "heap_inv (fold (copy_bank ov) xs g) \<and>
     npcrvals (fold (copy_bank ov) xs g) = npcrvals g \<and>
     nbanks g \<le> nbanks (fold (copy_bank ov) xs g) \<and>
     (\<forall>y. y \<noteq> ov \<longrightarrow> pcrvals (fold (copy_bank ov) xs g) y = pcrvals g y) \<and>
     (\<forall>b < nbanks g. banks (fold (copy_bank ov) xs g) b = banks g b) \<and>
     ctxs (fold (copy_bank ov) xs g) = ctxs g \<and>
     nctxs (fold (copy_bank ov) xs g) = nctxs g \<and>
     PCRValues_of (fold (copy_bank ov) xs g) ov =
       (\<lambda>a. case map_of xs a of Some b \<Rightarrow> Some (banks g b) | None \<Rightarrow> PCRValues_of g ov a)"
  using assms
proof (induction xs arbitrary: g)
  case Nil
  then show ?case by simp
next
  case (Cons ab xs)
  let ?g = "copy_bank ov ab g"
  let ?r = "fold (copy_bank ov) xs ?g"
  have 1: "heap_inv ?g" using Cons.prems by (intro copy_bank_inv) auto
  have 2: "ov < npcrvals ?g" using Cons.prems by simp
  have 3: "\<forall>ab\<in>set xs. snd ab < nbanks ?g" using Cons.prems by auto
  have 4: "distinct (map fst xs)" using Cons.prems by simp
  have 5: "fst ` set xs \<inter> fst ` set (pcrvals ?g ov) = {}" using Cons.prems by auto
  note IH = Cons.IH [OF 1 2 3 4 5]
  have old: "b < nbanks g" if "map_of (pcrvals g ov) a = Some b" for a b
    using heap_invD2 [OF Cons.prems(1,2), of a b] map_of_SomeD [OF that] by simp
  have nk: "map_of (pcrvals g ov) (fst ab) = None"
    using Cons.prems(5) by (auto simp: map_of_eq_None_iff)
  have nx: "map_of xs (fst ab) = None"
    using Cons.prems(4) by (auto simp: map_of_eq_None_iff)
  have xb: "b < nbanks g" if "map_of xs a = Some b" for a b
    using Cons.prems(3) map_of_SomeD [OF that] by auto
  have IHv: "PCRValues_of ?r ov a =
       (case map_of xs a of Some b \<Rightarrow> Some (banks ?g b) | None \<Rightarrow> PCRValues_of ?g ov a)" for a
    using IH by simp
  have gv: "PCRValues_of ?g ov a =
       (if a = fst ab then Some (banks g (snd ab)) else PCRValues_of g ov a)" for a
    using old [of a] nk
    by (auto simp: PCRValues_of_def map_add_def split: option.splits)
  have v: "PCRValues_of ?r ov a =
       (case map_of (ab # xs) a of Some b \<Rightarrow> Some (banks g b) | None \<Rightarrow> PCRValues_of g ov a)" for a
    unfolding IHv gv using nx xb [of a]
    by (cases ab) (auto split: option.splits)
  have "heap_inv ?r" using IH by simp
  moreover have "npcrvals ?r = npcrvals g" using IH by simp
  moreover have "nbanks g \<le> nbanks ?r" using IH by simp
  moreover have "\<forall>y. y \<noteq> ov \<longrightarrow> pcrvals ?r y = pcrvals g y" using IH by simp
  moreover have "\<forall>b < nbanks g. banks ?r b = banks g b" using IH by simp
  moreover have "ctxs ?r = ctxs g" using IH by simp
  moreover have "nctxs ?r = nctxs g" using IH by simp
  ultimately show ?case using v by (simp add: fun_eq_iff)
qed

lemma copy_values_props:
  assumes inv: "heap_inv h" and v: "v < npcrvals h"
  shows "fst (copy_values v h) = npcrvals h"
    and "heap_inv (snd (copy_values v h))"
    and "npcrvals (snd (copy_values v h)) = Suc (npcrvals h)"
    and "heap_ext h (snd (copy_values v h))"
    and "ctxs (snd (copy_values v h)) = ctxs h"
    and "nctxs (snd (copy_values v h)) = nctxs h"
    and "PCRValues_of (snd (copy_values v h)) (npcrvals h) = PCRValues_of h v"
proof -
  let ?ov = "npcrvals h"
  let ?h1 = "h\<lparr>pcrvals := (pcrvals h)(?ov := []), npcrvals := Suc ?ov\<rparr>"
  let ?r = "fold (copy_bank ?ov) (pcrvals h v) ?h1"
  have r: "copy_values v h = (?ov, ?r)" by (simp add: copy_values_def Let_def)
  have 1: "heap_inv ?h1"
  proof (rule heap_invI, goal_cases)
    case (1 x)
    then show ?case using heap_invD1 [OF inv, of x] by (auto simp: less_Suc_eq)
  next
    case (2 x a b)
    then show ?case using heap_invD2 [OF inv, of x a b] by (auto simp: less_Suc_eq split: if_splits)
  next
    case (3 x y a b a')
    then show ?case using heap_invD3 [OF inv, of x y a b a']
      by (auto simp: less_Suc_eq split: if_splits)
  qed
  have 3: "\<forall>ab\<in>set (pcrvals h v). snd ab < nbanks ?h1"
    using heap_invD2 [OF inv v] by auto
  have 4: "distinct (map fst (pcrvals h v))" by (rule heap_invD1 [OF inv v])
  note F = fold_copy_bank [OF 1 _ 3 4, of ?ov, simplified]
  show "fst (copy_values v h) = npcrvals h" by (simp add: r)
  show "heap_inv (snd (copy_values v h))" using F by (simp add: r)
  show "npcrvals (snd (copy_values v h)) = Suc (npcrvals h)" using F by (simp add: r)
  show "heap_ext h (snd (copy_values v h))" using F by (auto simp: r heap_ext_def)
  show "ctxs (snd (copy_values v h)) = ctxs h" using F by (simp add: r)
  show "nctxs (snd (copy_values v h)) = nctxs h" using F by (simp add: r)
  have "PCRValues_of ?r ?ov a = PCRValues_of h v a" for a
    using F 4 by (auto simp: PCRValues_of_def split: option.splits)
  then show "PCRValues_of (snd (copy_values v h)) (npcrvals h) = PCRValues_of h v"
    by (simp add: r fun_eq_iff)
qed

lemma upt_Cons_add: "[n ..< n + Suc k] = n # [Suc n ..< Suc n + k]"
  using upt_conv_Cons [of n "n + Suc k"] by simp

lemma copy_props:
  assumes "heap_inv h" "\<forall>x\<in>set l. x < npcrvals h"
  shows "fst (copy l h) = [npcrvals h ..< npcrvals h + length l] \<and>
     heap_inv (snd (copy l h)) \<and>
     npcrvals (snd (copy l h)) = npcrvals h + length l \<and>
     heap_ext h (snd (copy l h)) \<and>
     ctxs (snd (copy l h)) = ctxs h \<and>
     nctxs (snd (copy l h)) = nctxs h \<and>
     list_values (snd (copy l h)) (fst (copy l h)) = list_values h l"
  using assms
proof (induction l arbitrary: h)
  case Nil
  then show ?case by (simp add: list_values_def)
next
  case (Cons v l)
  let ?h1 = "snd (copy_values v h)"
  let ?h2 = "snd (copy l ?h1)"
  have v: "v < npcrvals h" and inv: "heap_inv h" using Cons.prems by simp_all
  note V = copy_values_props [OF inv v]
  have c: "copy (v # l) h = (npcrvals h # fst (copy l ?h1), ?h2)"
    using V(1) by (simp add: split_beta Let_def)
  have "\<forall>x\<in>set l. x < npcrvals ?h1" using Cons.prems V(3) by auto
  note IH = Cons.IH [OF V(2) this]
  have e2: "heap_ext ?h1 ?h2" using IH by simp
  have i2: "heap_inv ?h2" using IH by simp
  have pv: "PCRValues_of ?h2 (npcrvals h) = PCRValues_of h v"
    using heap_ext_values [OF V(2) e2, of "npcrvals h"] V(3,7) by simp
  have lv: "list_values ?h1 l = list_values h l"
    using heap_ext_values [OF inv V(4)] Cons.prems(2) by (simp add: list_values_def)
  have out: "fst (copy l ?h1) = [Suc (npcrvals h) ..< Suc (npcrvals h) + length l]"
    using IH V(3) by simp
  show ?case
    unfolding c fst_conv snd_conv
  proof (intro conjI)
    show "npcrvals h # fst (copy l ?h1) = [npcrvals h..<npcrvals h + length (v # l)]"
      unfolding out by (simp only: upt_Cons_add length_Cons)
    show "heap_inv ?h2" by (rule i2)
    show "npcrvals ?h2 = npcrvals h + length (v # l)" using IH V(3) by simp
    show "heap_ext h ?h2" by (rule heap_ext_trans [OF V(4) e2])
    show "ctxs ?h2 = ctxs h" using IH V(5) by simp
    show "nctxs ?h2 = nctxs h" using IH V(6) by simp
    have lv2: "list_values ?h2 (fst (copy l ?h1)) = list_values ?h1 l" using IH by blast
    have "list_values ?h2 (npcrvals h # fst (copy l ?h1)) =
        PCRValues_of ?h2 (npcrvals h) # list_values ?h2 (fst (copy l ?h1))"
      by (simp add: list_values_def)
    also have "\<dots> = PCRValues_of h v # list_values h l"
      unfolding pv lv2 lv ..
    also have "\<dots> = list_values h (v # l)"
      by (simp add: list_values_def)
    finally show "list_values ?h2 (npcrvals h # fst (copy l ?h1)) = list_values h (v # l)" .
  qed
qed

lemma heap_inv_ctxs [simp]:
  "heap_inv (h\<lparr>ctxs := f\<rparr>) = heap_inv h"
  "heap_inv (h\<lparr>nctxs := n\<rparr>) = heap_inv h"
  by (simp_all add: heap_inv_def)

lemma heap_ext_ctxs [simp]:
  "heap_ext h (h'\<lparr>ctxs := f\<rparr>) = heap_ext h h'"
  "heap_ext h (h'\<lparr>nctxs := n\<rparr>) = heap_ext h h'"
  "heap_ext (h\<lparr>ctxs := f\<rparr>) h' = heap_ext h h'"
  "heap_ext (h\<lparr>nctxs := n\<rparr>) h' = heap_ext h h'"
  by (simp_all add: heap_ext_def)

lemma PCRValues_of_ctxs [simp]:
  "PCRValues_of (h\<lparr>ctxs := f\<rparr>) = PCRValues_of h"
  "PCRValues_of (h\<lparr>nctxs := n\<rparr>) = PCRValues_of h"
  by (simp_all add: PCRValues_of_def fun_eq_iff)

lemma list_values_ctxs [simp]:
  "list_values (h\<lparr>ctxs := f\<rparr>) = list_values h"
  "list_values (h\<lparr>nctxs := n\<rparr>) = list_values h"
  by (simp_all add: list_values_def fun_eq_iff)

lemma heap_ext_list_values:
  assumes "heap_inv h" "heap_ext h h'" "\<forall>x\<in>set l. x < npcrvals h"
  shows "list_values h' l = list_values h l"
  using assms heap_ext_values [OF assms(1,2)] by (simp add: list_values_def)

lemma heap_ext_npcrvals: "heap_ext h h' \<Longrightarrow> npcrvals h \<le> npcrvals h'"
  by (simp add: heap_ext_def)

lemma new_contexts_props:
  assumes "heap_inv h" "c < nctxs h" "\<forall>x\<in>set (vals (ctxs h c)). x < npcrvals h"
  shows "fst (new_contexts n c h) = [nctxs h ..< nctxs h + n] \<and>
     nctxs (snd (new_contexts n c h)) = nctxs h + n \<and>
     heap_inv (snd (new_contexts n c h)) \<and>
     heap_ext h (snd (new_contexts n c h)) \<and>
     (\<forall>k < nctxs h. ctxs (snd (new_contexts n c h)) k = ctxs h k) \<and>
     (\<forall>k \<in> set (fst (new_contexts n c h)).
         parent (ctxs (snd (new_contexts n c h)) k) = Some c \<and>
         ctx_values (snd (new_contexts n c h)) k = ctx_values h c) \<and>
     all_vals (snd (new_contexts n c h)) (fst (new_contexts n c h)) =
       [npcrvals h ..< npcrvals (snd (new_contexts n c h))]"
  using assms
proof (induction n arbitrary: h)
  case 0
  then show ?case by (simp add: all_vals_def)
next
  case (Suc n)
  let ?src = "vals (ctxs h c)"
  let ?l = "fst (copy ?src h)"
  let ?h1 = "snd (copy ?src h)"
  let ?k = "nctxs h"
  let ?h2 = "?h1\<lparr>ctxs := (ctxs ?h1)(?k := \<lparr>parent = Some c, vals = ?l\<rparr>), nctxs := Suc ?k\<rparr>"
  let ?out = "fst (new_contexts n c ?h2)"
  let ?h3 = "snd (new_contexts n c ?h2)"
  note C = copy_props [OF Suc.prems(1,3)]
  have l: "?l = [npcrvals h ..< npcrvals h + length ?src]" using C by blast
  have i1: "heap_inv ?h1" using C by blast
  have n1: "npcrvals ?h1 = npcrvals h + length ?src" using C by blast
  have e1: "heap_ext h ?h1" using C by blast
  have c1: "ctxs ?h1 = ctxs h" using C by blast
  have k1: "nctxs ?h1 = nctxs h" using C by blast
  have v1: "list_values ?h1 ?l = list_values h ?src" using C by blast
  have nc: "new_contexts (Suc n) c h = (?k # ?out, ?h3)"
    by (simp add: split_beta Let_def k1)
  have ck: "c \<noteq> ?k" using Suc.prems(2) by simp
  have i2: "heap_inv ?h2" using i1 by simp
  have p2: "c < nctxs ?h2" using Suc.prems(2) by simp
  have q2: "\<forall>x\<in>set (vals (ctxs ?h2 c)). x < npcrvals ?h2"
    using Suc.prems(3) ck n1 by (auto simp: c1)
  note IH = Suc.IH [OF i2 p2 q2]
  have out: "?out = [Suc ?k ..< Suc ?k + n]" using IH by simp
  have k3: "nctxs ?h3 = Suc ?k + n" using IH by simp
  have i3: "heap_inv ?h3" using IH by blast
  have e3: "heap_ext ?h2 ?h3" using IH by blast
  have e23: "heap_ext ?h1 ?h3" using e3 by simp
  have c3: "\<forall>j < Suc ?k. ctxs ?h3 j = ctxs ?h2 j" using IH by simp
  have v3: "\<forall>j \<in> set ?out. parent (ctxs ?h3 j) = Some c \<and> ctx_values ?h3 j = ctx_values ?h2 c"
    using IH by blast
  have a3: "all_vals ?h3 ?out = [npcrvals ?h2 ..< npcrvals ?h3]" using IH by blast
  have lb: "\<forall>x\<in>set ?l. x < npcrvals ?h1" unfolding l n1 by simp
  have ctxk: "ctxs ?h3 ?k = \<lparr>parent = Some c, vals = ?l\<rparr>" using c3 by simp
  have vk: "ctx_values ?h3 ?k = ctx_values h c"
    using heap_ext_list_values [OF i1 e23 lb] v1 by (simp add: ctx_values_def ctxk)
  have vc2: "ctx_values ?h2 c = ctx_values h c"
    using heap_ext_list_values [OF Suc.prems(1) e1 Suc.prems(3)] ck
    by (simp add: ctx_values_def c1)
  have le13: "npcrvals ?h1 \<le> npcrvals ?h3" using heap_ext_npcrvals [OF e23] .
  show ?case
    unfolding nc fst_conv snd_conv
  proof (intro conjI)
    show "?k # ?out = [?k ..< ?k + Suc n]"
      unfolding out by (simp only: upt_Cons_add)
    show "nctxs ?h3 = ?k + Suc n" using k3 by simp
    show "heap_inv ?h3" by (rule i3)
    show "heap_ext h ?h3" by (rule heap_ext_trans [OF e1 e23])
    show "\<forall>j < ?k. ctxs ?h3 j = ctxs h j" using c3 by (simp add: c1)
    show "\<forall>j \<in> set (?k # ?out). parent (ctxs ?h3 j) = Some c \<and> ctx_values ?h3 j = ctx_values h c"
      using v3 vk vc2 ctxk by simp
    have "all_vals ?h3 (?k # ?out) = ?l @ all_vals ?h3 ?out"
      by (simp add: all_vals_def ctxk)
    also have "\<dots> = [npcrvals h ..< npcrvals ?h1] @ [npcrvals ?h1 ..< npcrvals ?h3]"
      unfolding a3 using l n1 by simp
    also have "\<dots> = [npcrvals h ..< npcrvals ?h3]"
      using le13 n1 by (metis le_add1 le_Suc_ex upt_add_eq_append)
    finally show "all_vals ?h3 (?k # ?out) = [npcrvals h ..< npcrvals ?h3]" .
  qed
qed

lemma parents_ok_cong:
  "\<forall>c\<in>set st. parent (ctxs h' c) = parent (ctxs h c) \<Longrightarrow> parents_ok h' st = parents_ok h st"
  by (induction h st rule: parents_ok.induct) auto

lemma all_vals_cong:
  "\<forall>c\<in>set st. vals (ctxs h' c) = vals (ctxs h c) \<Longrightarrow> all_vals h' st = all_vals h st"
  by (simp add: all_vals_def cong: map_cong)

lemma stack_inv_top:
  assumes "stack_inv h (c # crest)"
  shows "heap_inv h" "c < nctxs h" "distinct (vals (ctxs h c))"
    "\<forall>x\<in>set (vals (ctxs h c)). x < npcrvals h" "c \<notin> set crest"
    "\<forall>q\<in>set crest. \<forall>x\<in>set (vals (ctxs h q)). x < npcrvals h \<and> x \<notin> set (vals (ctxs h c))"
  using assms by (auto simp: stack_inv_def all_vals_def)

lemma update_top:
  fixes f :: "(int \<rightharpoonup> digest) \<Rightarrow> (int \<rightharpoonup> digest)" and a :: alg
  assumes inv: "stack_inv h (c # crest)"
  defines "h' \<equiv> fold (update_bank f a) (vals (ctxs h c)) h"
  shows "stack_inv h' (c # crest)"
    and "ctxs h' = ctxs h"
    and "ctx_values h' c = map (update_value f a) (ctx_values h c)"
    and "\<forall>q\<in>set crest. ctx_values h' q = ctx_values h q"
proof -
  note T = stack_inv_top [OF inv]
  note F = fold_update_bank [OF T(1,3,4), of f a, folded h'_def]
  show c: "ctxs h' = ctxs h" by (rule F(3))
  have av: "all_vals h' st = all_vals h st" for st
    by (rule all_vals_cong) (simp add: c)
  have po: "parents_ok h' st = parents_ok h st" for st
    by (rule parents_ok_cong) (simp add: c)
  show "stack_inv h' (c # crest)"
    using inv F(1,2,4) unfolding stack_inv_def av po by simp
  show "ctx_values h' c = map (update_value f a) (ctx_values h c)"
    using F(5) by (simp add: ctx_values_def c)
  show "\<forall>q\<in>set crest. ctx_values h' q = ctx_values h q"
    using F(6) T(6) by (simp add: ctx_values_def c list_values_def)
qed

lemma handleBranches_props:
  fixes n :: nat
  assumes inv: "stack_inv h (c # crest)"
  defines "out \<equiv> fst (handleBranches n c h)" and "h' \<equiv> snd (handleBranches n c h)"
  shows "stack_inv h' (out @ c # crest)"
    and "length out = n"
    and "vals (ctxs h' c) = []"
    and "parent (ctxs h' c) = parent (ctxs h c)"
    and "\<forall>k\<in>set out. parent (ctxs h' k) = Some c \<and> ctx_values h' k = ctx_values h c"
    and "\<forall>q\<in>set crest. ctxs h' q = ctxs h q \<and> ctx_values h' q = ctx_values h q"
proof -
  note T = stack_inv_top [OF inv]
  let ?g = "snd (new_contexts n c h)"
  note N = new_contexts_props [OF T(1,2,4), of n]
  have fo: "out = fst (new_contexts n c h)"
    by (simp add: out_def handleBranches_def split_beta)
  have out: "out = [nctxs h ..< nctxs h + n]"
    unfolding fo using N by blast
  have h': "h' = ?g\<lparr>ctxs := (ctxs ?g)(c := (ctxs ?g c)\<lparr>vals := []\<rparr>)\<rparr>"
    by (simp add: h'_def handleBranches_def split_beta)
  have ig: "heap_inv ?g" and eg: "heap_ext h ?g" and kg: "nctxs ?g = nctxs h + n"
    and cg: "\<forall>k < nctxs h. ctxs ?g k = ctxs h k" using N by blast+
  have vg: "\<forall>k \<in> set out. parent (ctxs ?g k) = Some c \<and> ctx_values ?g k = ctx_values h c"
    unfolding fo using N by blast
  have ag: "all_vals ?g out = [npcrvals h ..< npcrvals ?g]"
    unfolding fo using N by blast
  have cout: "c \<notin> set out" using T(2) by (simp add: out)
  have old: "\<forall>q\<in>set (c # crest). q < nctxs h" using inv by (simp add: stack_inv_def)
  show "length out = n" by (simp add: out)
  show "vals (ctxs h' c) = []" by (simp add: h')
  show "parent (ctxs h' c) = parent (ctxs h c)" using cg T(2) by (simp add: h')
  show 5: "\<forall>k\<in>set out. parent (ctxs h' k) = Some c \<and> ctx_values h' k = ctx_values h c"
    using vg cout by (auto simp: h' ctx_values_def)
  show 6: "\<forall>q\<in>set crest. ctxs h' q = ctxs h q \<and> ctx_values h' q = ctx_values h q"
  proof
    fix q assume q: "q \<in> set crest"
    then have qc: "q \<noteq> c" using T(5) by auto
    have cq: "ctxs h' q = ctxs h q" using cg old q qc by (simp add: h')
    have "\<forall>x\<in>set (vals (ctxs h q)). x < npcrvals h" using T(6) q by auto
    from heap_ext_list_values [OF T(1) eg this]
    show "ctxs h' q = ctxs h q \<and> ctx_values h' q = ctx_values h q"
      using cq by (simp add: ctx_values_def h')
  qed
  have a1: "all_vals h' out = [npcrvals h ..< npcrvals ?g]"
    unfolding ag [symmetric] by (rule all_vals_cong) (use cout in \<open>auto simp: h'\<close>)
  have a2: "all_vals h' crest = all_vals h crest"
    by (rule all_vals_cong) (use 6 in auto)
  have a: "all_vals h' (out @ c # crest) = [npcrvals h ..< npcrvals ?g] @ all_vals h crest"
    using a1 a2 \<open>vals (ctxs h' c) = []\<close> by (simp add: all_vals_def)
  have lt: "\<forall>x\<in>set (all_vals h crest). x < npcrvals h"
    using inv by (simp add: stack_inv_def all_vals_def)
  have dc: "distinct (all_vals h crest)"
    using inv by (simp add: stack_inv_def all_vals_def)
  have p1: "parents_ok h' (c # crest) = parents_ok h (c # crest)"
    by (rule parents_ok_cong) (use 6 \<open>parent (ctxs h' c) = parent (ctxs h c)\<close> in auto)
  have p2: "parents_ok h' (ks @ c # crest)" if "set ks \<subseteq> set out" for ks
    using that
  proof (induction ks)
    case Nil
    then show ?case using p1 inv by (simp add: stack_inv_def)
  next
    case (Cons k ks)
    then have pk: "parent (ctxs h' k) = Some c" using 5 by auto
    obtain x xs where e: "ks @ c # crest = x # xs" by (cases "ks @ c # crest") auto
    have "c \<in> set (x # xs)" unfolding e [symmetric] by simp
    moreover have "parents_ok h' (x # xs)" using Cons by (simp add: e)
    ultimately have "parents_ok h' (k # x # xs)" using pk by auto
    then show ?case by (simp add: e)
  qed
  show "stack_inv h' (out @ c # crest)"
    unfolding stack_inv_def
  proof (intro conjI)
    show "heap_inv h'" using ig by (simp add: h')
    show "distinct (out @ c # crest)"
      using inv old cout by (auto simp: stack_inv_def out)
    show "\<forall>k\<in>set (out @ c # crest). k < nctxs h'"
      using old kg by (auto simp: h' out)
    show "distinct (all_vals h' (out @ c # crest))"
      unfolding a using dc lt by fastforce
    show "\<forall>x\<in>set (all_vals h' (out @ c # crest)). x < npcrvals h'"
      unfolding a using lt heap_ext_npcrvals [OF eg] by (auto simp: h')
    show "parents_ok h' (out @ c # crest)" by (rule p2) simp
  qed
qed

lemma parents_ok_parent:
  "parents_ok h (c # crest) \<Longrightarrow> parent (ctxs h c) = Some q \<Longrightarrow> q \<in> set crest"
  by (cases crest) auto

lemma parents_ok_tl:
  "parents_ok h (c # crest) \<Longrightarrow> crest \<noteq> [] \<Longrightarrow> parents_ok h crest"
  by (cases crest) auto

lemma parents_ok_root:
  "parents_ok h (c # crest) \<Longrightarrow> parent (ctxs h c) = None \<Longrightarrow> crest = []"
  by (cases crest) auto

lemma all_vals_append_at:
  assumes "distinct st"
  shows "mset (all_vals (h\<lparr>ctxs := (ctxs h)(q := (ctxs h q)\<lparr>vals := vals (ctxs h q) @ extra\<rparr>)\<rparr>) st) =
     mset (all_vals h st) + (if q \<in> set st then mset extra else {#})"
  using assms by (induction st) (auto simp: all_vals_def)

lemma finishBranch_props:
  assumes inv: "stack_inv h (c # crest)" and par: "parent (ctxs h c) = Some q"
  defines "h' \<equiv> h\<lparr>ctxs := (ctxs h)(q := (ctxs h q)\<lparr>vals := vals (ctxs h q) @ vals (ctxs h c)\<rparr>)\<rparr>"
  shows "finishBranch c h = Some h'"
    and "q \<in> set crest"
    and "stack_inv h' crest"
    and "ctx_values h' q = ctx_values h q @ ctx_values h c"
    and "parent (ctxs h' q) = parent (ctxs h q)"
    and "\<forall>k. k \<noteq> q \<longrightarrow> ctxs h' k = ctxs h k \<and> ctx_values h' k = ctx_values h k"
proof -
  show "finishBranch c h = Some h'" using par by (simp add: finishBranch_def h'_def)
  have po: "parents_ok h (c # crest)" using inv by (simp add: stack_inv_def)
  show q: "q \<in> set crest" by (rule parents_ok_parent [OF po par])
  have d: "distinct crest" using inv by (simp add: stack_inv_def)
  have m: "mset (all_vals h' crest) = mset (all_vals h (c # crest))"
    using all_vals_append_at [OF d, of h q "vals (ctxs h c)"] q
    by (simp add: h'_def all_vals_def)
  have "parents_ok h' crest = parents_ok h crest"
    by (rule parents_ok_cong) (simp add: h'_def)
  moreover have "parents_ok h crest"
  proof (rule parents_ok_tl [OF po])
    show "crest \<noteq> []" using q by auto
  qed
  moreover have "distinct (all_vals h' crest)"
    using mset_eq_imp_distinct_iff [OF m] inv by (simp add: stack_inv_def)
  moreover have "set (all_vals h' crest) = set (all_vals h (c # crest))"
    using mset_eq_setD [OF m] .
  ultimately show "stack_inv h' crest"
    using inv by (simp add: stack_inv_def h'_def)
  show "ctx_values h' q = ctx_values h q @ ctx_values h c"
    by (simp add: ctx_values_def h'_def list_values_def)
  show "parent (ctxs h' q) = parent (ctxs h q)" by (simp add: h'_def)
  show "\<forall>k. k \<noteq> q \<longrightarrow> ctxs h' k = ctxs h k \<and> ctx_values h' k = ctx_values h k"
    by (simp add: ctx_values_def h'_def)
qed

lemma set_value_update: "set_value a pcr d = update_value (\<lambda>m. m(pcr \<mapsto> d)) a"
  by (simp add: set_value_def update_value_def fun_eq_iff)

lemma extend_value_update:
  "extend_value H a pcr d =
     update_value (\<lambda>m. m(pcr \<mapsto> Sum H a ((case m pcr of None \<Rightarrow> replicate (Size H a) 0 | Some x \<Rightarrow> x) @ d))) a"
  by (simp add: extend_value_def update_value_def fun_eq_iff Let_def)

lemma setValue_top:
  assumes "stack_inv h (c # crest)"
  shows "stack_inv (setValue (vals (ctxs h c)) a pcr d h) (c # crest)"
    and "ctxs (setValue (vals (ctxs h c)) a pcr d h) = ctxs h"
    and "ctx_values (setValue (vals (ctxs h c)) a pcr d h) c = map (set_value a pcr d) (ctx_values h c)"
    and "\<forall>q\<in>set crest. ctx_values (setValue (vals (ctxs h c)) a pcr d h) q = ctx_values h q"
  unfolding setValue_def SetValue_update set_value_update
  by (rule update_top [OF assms])+

lemma extendValue_top:
  assumes "stack_inv h (c # crest)"
  shows "stack_inv (extendValue H (vals (ctxs h c)) a pcr d h) (c # crest)"
    and "ctxs (extendValue H (vals (ctxs h c)) a pcr d h) = ctxs h"
    and "ctx_values (extendValue H (vals (ctxs h c)) a pcr d h) c = map (extend_value H a pcr d) (ctx_values h c)"
    and "\<forall>q\<in>set crest. ctx_values (extendValue H (vals (ctxs h c)) a pcr d h) q = ctx_values h q"
  unfolding extendValue_def extend1_update extend_value_update
  by (rule update_top [OF assms])+

lemma run_Continue: "step H tpm s = Continue s' \<Longrightarrow> run H tpm s = run H tpm s'"
  by (subst run.simps) simp

lemma run_same_step: "step H tpm s = step H tpm s' \<Longrightarrow> run H tpm s = run H tpm s'"
  by (simp add: run.simps [of H tpm s] run.simps [of H tpm s'])

lemma sum_case_same: "(case r of Inl e \<Rightarrow> Inl e | Inr l \<Rightarrow> Inr l) = r"
  by (cases r) simp_all

lemma run_Return: "step H tpm s = Return l \<Longrightarrow> run H tpm s = Inr l"
  by (subst run.simps) simp

lemma run_Fail: "step H tpm s = Fail e \<Longrightarrow> run H tpm s = Inl e"
  by (subst run.simps) simp

lemma step_AddPCRValue:
  "iter s = (AddPCRValue a pcr d # is) # rest \<Longrightarrow> contexts s = c # crest \<Longrightarrow>
     step H tpm s = Continue (s\<lparr>iter := is # rest, heap := setValue (vals (ctxs (heap s) c)) a pcr d (heap s)\<rparr>)"
  by (simp add: step_def stack_top_def)

lemma step_ExtendPCR:
  "iter s = (ExtendPCR a pcr d # is) # rest \<Longrightarrow> contexts s = c # crest \<Longrightarrow>
     step H tpm s = Continue (s\<lparr>iter := is # rest, heap := extendValue H (vals (ctxs (heap s) c)) a pcr d (heap s)\<rparr>)"
  by (simp add: step_def stack_top_def)

lemma step_FromTPM_nil:
  "iter s = (AddPCRValueFromTPM a pcr # is) # rest \<Longrightarrow> step H None s = Fail (NoTPMContext pcr a)"
  by (simp add: step_def)

lemma step_FromTPM_err:
  "iter s = (AddPCRValueFromTPM a pcr # is) # rest \<Longrightarrow> PCRRead a pcr = Inl err \<Longrightarrow>
     step H (Some PCRRead) s = Fail (PCRReadFailed pcr a err)"
  by (simp add: step_def)

lemma step_FromTPM_ok:
  "iter s = (AddPCRValueFromTPM a pcr # is) # rest \<Longrightarrow> contexts s = c # crest \<Longrightarrow>
   PCRRead a pcr = Inr v \<Longrightarrow>
     step H (Some PCRRead) s =
       Continue (s\<lparr>iter := is # rest,
         heap := setValue (vals (ctxs (heap s) c)) a pcr (PCRValues_get v a pcr) (heap s)\<rparr>)"
  by (simp add: step_def stack_top_def)

lemma step_empty_OR:
  "iter s = (AddProfileOR [] # is) # rest \<Longrightarrow> step H tpm s = step H tpm (s\<lparr>iter := is # rest\<rparr>)"
  by (simp add: step_def split: option.splits)

lemma step_OR:
  "iter s = (AddProfileOR ps # is) # rest \<Longrightarrow> ps \<noteq> [] \<Longrightarrow> contexts s = c # crest \<Longrightarrow>
     step H tpm s =
       Continue (s\<lparr>iter := ps @ is # rest,
          contexts := fst (handleBranches (length ps) c (heap s)) @ c # crest,
          heap := snd (handleBranches (length ps) c (heap s))\<rparr>)"
  by (simp add: step_def stack_top_def descendInToProfiles_def split_beta)

lemma step_End_root:
  "iter s = [] # rest \<Longrightarrow> contexts s = c # crest \<Longrightarrow> parent (ctxs (heap s) c) = None \<Longrightarrow>
     step H tpm s = Return (ctx_values (heap s) c)"
  by (simp add: step_def stack_top_def isRoot_def)

lemma step_End:
  "iter s = [] # rest \<Longrightarrow> contexts s = c # crest \<Longrightarrow> parent (ctxs (heap s) c) = Some q \<Longrightarrow>
     step H tpm s =
       Continue (s\<lparr>iter := rest, contexts := crest,
         heap := (heap s)\<lparr>ctxs := (ctxs (heap s))(q := (ctxs (heap s) q)
                   \<lparr>vals := vals (ctxs (heap s) q) @ vals (ctxs (heap s) c)\<rparr>)\<rparr>\<rparr>)"
  by (simp add: step_def stack_top_def isRoot_def finishBranch_def)

lemma level_done_refl:
  "state_inv s \<Longrightarrow> iter s = it \<Longrightarrow> contexts s = c # crest \<Longrightarrow>
     level_done H tpm s it c crest (Inr (ctx_values (heap s) c))"
  unfolding level_done_def by auto

lemma level_done_step:
  assumes "run H tpm s = run H tpm s1"
    and "parent (ctxs (heap s1) c) = parent (ctxs (heap s) c)"
    and "\<forall>q\<in>set crest. ctxs (heap s1) q = ctxs (heap s) q \<and> ctx_values (heap s1) q = ctx_values (heap s) q"
    and "level_done H tpm s1 it c crest r"
  shows "level_done H tpm s it c crest r"
proof (cases r)
  case (Inl e)
  with assms show ?thesis by (simp add: level_done_def)
next
  case (Inr l')
  with assms(4) obtain s' where s': "run H tpm s1 = run H tpm s'" "state_inv s'" "iter s' = it"
    "contexts s' = c # crest" "ctx_values (heap s') c = l'"
    "parent (ctxs (heap s') c) = parent (ctxs (heap s1) c)"
    "\<forall>q\<in>set crest. ctxs (heap s') q = ctxs (heap s1) q \<and> ctx_values (heap s') q = ctx_values (heap s1) q"
    unfolding level_done_def by auto
  show ?thesis
    unfolding level_done_def Inr sum.case
    by (rule exI [of _ s']) (use s' assms(1-3) in auto)
qed

lemma level_done_bind:
  assumes "level_done H tpm s it1 c crest r1"
    and "\<And>s1 l1. r1 = Inr l1 \<Longrightarrow> state_inv s1 \<Longrightarrow> iter s1 = it1 \<Longrightarrow> contexts s1 = c # crest \<Longrightarrow>
           ctx_values (heap s1) c = l1 \<Longrightarrow> level_done H tpm s1 it2 c crest (f l1)"
  shows "level_done H tpm s it2 c crest (case r1 of Inl e \<Rightarrow> Inl e | Inr l1 \<Rightarrow> f l1)"
proof (cases r1)
  case (Inl e)
  with assms(1) show ?thesis by (simp add: level_done_def)
next
  case (Inr l1)
  with assms(1) obtain s1 where s1: "run H tpm s = run H tpm s1" "state_inv s1" "iter s1 = it1"
    "contexts s1 = c # crest" "ctx_values (heap s1) c = l1"
    "parent (ctxs (heap s1) c) = parent (ctxs (heap s) c)"
    "\<forall>q\<in>set crest. ctxs (heap s1) q = ctxs (heap s) q \<and> ctx_values (heap s1) q = ctx_values (heap s) q"
    unfolding level_done_def by auto
  have "level_done H tpm s1 it2 c crest (f l1)"
    by (rule assms(2) [OF Inr s1(2-5)])
  from level_done_step [OF s1(1,6,7) this] show ?thesis by (simp add: Inr)
qed

lemma update_level:
  fixes f :: "(int \<rightharpoonup> digest) \<Rightarrow> (int \<rightharpoonup> digest)" and a :: alg
  assumes inv: "state_inv s" and st: "contexts s = c # crest" and it: "iter s = (i # is) # rest"
    and step: "step H tpm s =
       Continue (s\<lparr>iter := is # rest, heap := fold (update_bank f a) (vals (ctxs (heap s) c)) (heap s)\<rparr>)"
    and IH: "\<And>s1. state_inv s1 \<Longrightarrow> iter s1 = is # rest \<Longrightarrow> contexts s1 = c # crest \<Longrightarrow>
       ctx_values (heap s1) c = map (update_value f a) (ctx_values (heap s) c) \<Longrightarrow>
       level_done H tpm s1 it' c crest r"
  shows "level_done H tpm s it' c crest r"
proof -
  let ?h1 = "fold (update_bank f a) (vals (ctxs (heap s) c)) (heap s)"
  let ?s1 = "s\<lparr>iter := is # rest, heap := ?h1\<rparr>"
  have si: "stack_inv (heap s) (c # crest)" using inv st by (simp add: state_inv_def)
  note T = update_top [OF si, of f a]
  have inv1: "state_inv ?s1" using inv T(1) st it by (simp add: state_inv_def)
  have "level_done H tpm ?s1 it' c crest r"
    by (rule IH [OF inv1]) (simp_all add: st T(3))
  then show ?thesis
    by (rule level_done_step [OF run_Continue [OF step], rotated 2]) (simp_all add: T(2) T(4))
qed

lemma eval_refines:
  "\<forall>s rest c crest. state_inv s \<longrightarrow> iter s = is # rest \<longrightarrow> contexts s = c # crest \<longrightarrow>
      ctx_values (heap s) c = l \<longrightarrow>
      level_done H tpm s ([] # rest) c crest (eval H tpm is l)"
  "\<forall>s is rest cs q crest. state_inv s \<longrightarrow> iter s = ps @ (is # rest) \<longrightarrow>
      contexts s = cs @ (q # crest) \<longrightarrow> length cs = length ps \<longrightarrow>
      (\<forall>c\<in>set cs. parent (ctxs (heap s) c) = Some q \<and> ctx_values (heap s) c = l) \<longrightarrow>
      level_done H tpm s (is # rest) q crest
        (case eval_branches H tpm ps l of Inl e \<Rightarrow> Inl e | Inr l' \<Rightarrow> Inr (ctx_values (heap s) q @ l'))"
proof (induction H tpm "is" l and H tpm ps l rule: eval_eval_branches.induct)
  case (1 H tpm l)
  show ?case using level_done_refl by auto
next
  case (2 H tpm a pcr d "is" l)
  show ?case
  proof (intro allI impI)
    fix s rest c crest
    assume A: "state_inv s" "iter s = (AddPCRValue a pcr d # is) # rest" "contexts s = c # crest"
      "ctx_values (heap s) c = l"
    show "level_done H tpm s ([] # rest) c crest (eval H tpm (AddPCRValue a pcr d # is) l)"
      using 2 A(4)
      by (intro update_level [OF A(1,3,2) step_AddPCRValue [OF A(2,3), unfolded setValue_def SetValue_update]])
         (simp add: set_value_update)
  qed
next
  case (3 H tpm a pcr "is" l)
  show ?case
  proof (intro allI impI)
    fix s rest c crest
    assume A: "state_inv s" "iter s = (AddPCRValueFromTPM a pcr # is) # rest" "contexts s = c # crest"
      "ctx_values (heap s) c = l"
    show "level_done H tpm s ([] # rest) c crest (eval H tpm (AddPCRValueFromTPM a pcr # is) l)"
    proof (cases tpm)
      case None
      then show ?thesis
        using run_Fail [OF step_FromTPM_nil [OF A(2)]] by (simp add: level_done_def)
    next
      case (Some PCRRead)
      show ?thesis
      proof (cases "PCRRead a pcr")
        case (Inl err)
        then show ?thesis
          using run_Fail [OF step_FromTPM_err [where PCRRead = PCRRead, OF A(2) Inl]] Some by (simp add: level_done_def)
      next
        case (Inr v)
        show ?thesis
          using 3 [OF Some Inr] A(4) Some Inr
          by (intro update_level [OF A(1,3,2)
                step_FromTPM_ok [where PCRRead = PCRRead, OF A(2,3) Inr, unfolded setValue_def SetValue_update, folded Some]])
             (simp add: set_value_update)
      qed
    qed
  qed
next
  case (4 H tpm a pcr d "is" l)
  show ?case
  proof (intro allI impI)
    fix s rest c crest
    assume A: "state_inv s" "iter s = (ExtendPCR a pcr d # is) # rest" "contexts s = c # crest"
      "ctx_values (heap s) c = l"
    show "level_done H tpm s ([] # rest) c crest (eval H tpm (ExtendPCR a pcr d # is) l)"
      using 4 A(4)
      by (intro update_level [OF A(1,3,2) step_ExtendPCR [OF A(2,3), unfolded extendValue_def extend1_update]])
         (simp add: extend_value_update)
  qed
next
  case (5 H tpm ps "is" l)
  show ?case
  proof (intro allI impI)
    fix s rest c crest
    assume A: "state_inv s" "iter s = (AddProfileOR ps # is) # rest" "contexts s = c # crest"
      "ctx_values (heap s) c = l"
    show "level_done H tpm s ([] # rest) c crest (eval H tpm (AddProfileOR ps # is) l)"
    proof (cases "ps = []")
      case True
      let ?s1 = "s\<lparr>iter := is # rest\<rparr>"
      have r: "run H tpm s = run H tpm ?s1"
        by (rule run_same_step [OF step_empty_OR [OF A(2) [unfolded True]]])
      have "state_inv ?s1" using A by (simp add: state_inv_def)
      then have "level_done H tpm ?s1 ([] # rest) c crest (eval H tpm is l)"
        by (rule 5(1) [OF True, rule_format]) (use A in simp_all)
      then show ?thesis
        using True by (intro level_done_step [OF r]) simp_all
    next
      case False
      let ?out = "fst (handleBranches (length ps) c (heap s))"
      let ?h1 = "snd (handleBranches (length ps) c (heap s))"
      let ?s1 = "s\<lparr>iter := ps @ is # rest, contexts := ?out @ c # crest, heap := ?h1\<rparr>"
      have si: "stack_inv (heap s) (c # crest)" using A by (simp add: state_inv_def)
      note B = handleBranches_props [OF si, of "length ps"]
      have r: "run H tpm s = run H tpm ?s1"
        by (rule run_Continue [OF step_OR [OF A(2) False A(3)]])
      have inv1: "state_inv ?s1" using A B(1,2) by (simp add: state_inv_def)
      have "level_done H tpm ?s1 (is # rest) c crest
          (case eval_branches H tpm ps l of Inl e \<Rightarrow> Inl e | Inr l' \<Rightarrow> Inr (ctx_values ?h1 c @ l'))"
        using 5(2) [OF False, rule_format, of ?s1 "is" rest ?out c crest] inv1 B(2,5) A(4)
        by (simp cong: sum.case_cong)
      then have 1: "level_done H tpm ?s1 (is # rest) c crest (eval_branches H tpm ps l)"
        using B(3) by (simp add: ctx_values_def list_values_def sum_case_same cong: sum.case_cong)
      have "level_done H tpm ?s1 ([] # rest) c crest
          (case eval_branches H tpm ps l of Inl e \<Rightarrow> Inl e | Inr l' \<Rightarrow> eval H tpm is l')"
        by (rule level_done_bind [OF 1]) (use 5(3) [OF False] in auto)
      then show ?thesis
        using False B(4,6) by (intro level_done_step [OF r]) simp_all
    qed
  qed
next
  case (6 H tpm l)
  show ?case using level_done_refl by auto
next
  case (7 H tpm p ps l)
  show ?case
  proof (intro allI impI)
    fix s "is" rest cs q crest
    assume A: "state_inv s" "iter s = (p # ps) @ is # rest" "contexts s = cs @ q # crest"
      "length cs = length (p # ps)"
      "\<forall>c\<in>set cs. parent (ctxs (heap s) c) = Some q \<and> ctx_values (heap s) c = l"
    from A(4) obtain c1 cs' where cs: "cs = c1 # cs'" "length cs' = length ps"
      by (cases cs) auto
    let ?rest = "ps @ is # rest"
    let ?crest = "cs' @ q # crest"
    have it: "iter s = p # ?rest" and st: "contexts s = c1 # ?crest" using A cs by simp_all
    have c1: "parent (ctxs (heap s) c1) = Some q" "ctx_values (heap s) c1 = l" using A(5) cs by simp_all
    have dst: "distinct (c1 # cs' @ q # crest)" using A(1) st by (simp add: state_inv_def stack_inv_def)
    have 1: "level_done H tpm s ([] # ?rest) c1 ?crest (eval H tpm p l)"
      by (rule 7(1) [rule_format, OF A(1) it st c1(2)])
    show "level_done H tpm s (is # rest) q crest
        (case eval_branches H tpm (p # ps) l of Inl e \<Rightarrow> Inl e | Inr l' \<Rightarrow> Inr (ctx_values (heap s) q @ l'))"
    proof (cases "eval H tpm p l")
      case (Inl e)
      with 1 show ?thesis by (simp add: level_done_def)
    next
      case (Inr l1)
      with 1 obtain s1 where s1: "run H tpm s = run H tpm s1" "state_inv s1" "iter s1 = [] # ?rest"
        "contexts s1 = c1 # ?crest" "ctx_values (heap s1) c1 = l1"
        "parent (ctxs (heap s1) c1) = parent (ctxs (heap s) c1)"
        "\<forall>k\<in>set ?crest. ctxs (heap s1) k = ctxs (heap s) k \<and> ctx_values (heap s1) k = ctx_values (heap s) k"
        unfolding level_done_def by auto
      let ?h2 = "(heap s1)\<lparr>ctxs := (ctxs (heap s1))(q := (ctxs (heap s1) q)
                   \<lparr>vals := vals (ctxs (heap s1) q) @ vals (ctxs (heap s1) c1)\<rparr>)\<rparr>"
      let ?s2 = "s1\<lparr>iter := ?rest, contexts := ?crest, heap := ?h2\<rparr>"
      have p1: "parent (ctxs (heap s1) c1) = Some q" using s1(6) c1 by simp
      have si: "stack_inv (heap s1) (c1 # ?crest)" using s1(2,4) by (simp add: state_inv_def)
      note F = finishBranch_props [OF si p1]
      have r2: "run H tpm s1 = run H tpm ?s2"
        by (rule run_Continue [OF step_End [OF s1(3,4) p1]])
      have inv2: "state_inv ?s2" using F(3) cs(2) s1(2,3,4) by (simp add: state_inv_def)
      have sib: "\<forall>c\<in>set cs'. parent (ctxs ?h2 c) = Some q \<and> ctx_values ?h2 c = l"
      proof
        fix c assume c: "c \<in> set cs'"
        then have "c \<noteq> q" using dst by auto
        moreover have "parent (ctxs (heap s) c) = Some q \<and> ctx_values (heap s) c = l"
          using A(5) c cs by simp
        ultimately show "parent (ctxs ?h2 c) = Some q \<and> ctx_values ?h2 c = l"
          using F(6) s1(7) c by simp
      qed
      have q2: "ctx_values ?h2 q = ctx_values (heap s) q @ l1"
        using F(4) s1(5,7) by simp
      have "level_done H tpm ?s2 (is # rest) q crest
          (case eval_branches H tpm ps l of Inl e \<Rightarrow> Inl e | Inr l' \<Rightarrow> Inr (ctx_values ?h2 q @ l'))"
        using 7(2) [OF Inr, rule_format, of ?s2 "is" rest cs' q crest] inv2 cs(2) sib
        by (simp cong: sum.case_cong)
      then have 2: "level_done H tpm ?s2 (is # rest) q crest
          (case eval_branches H tpm (p # ps) l of Inl e \<Rightarrow> Inl e | Inr l' \<Rightarrow> Inr (ctx_values (heap s) q @ l'))"
        unfolding q2 by (simp add: Inr split: sum.splits)
      have qc: "q \<notin> set crest" using dst by simp
      show ?thesis
      proof (rule level_done_step [OF _ _ _ 2])
        show "run H tpm s = run H tpm ?s2" using s1(1) r2 by simp
        show "parent (ctxs (heap ?s2) q) = parent (ctxs (heap s) q)"
          using F(5) s1(7) by simp
        show "\<forall>k\<in>set crest. ctxs (heap ?s2) k = ctxs (heap s) k \<and>
            ctx_values (heap ?s2) k = ctx_values (heap s) k"
          using F(6) s1(7) qc by auto
      qed
    qed
  qed
qed


lemma heap0_inv: "stack_inv heap0 [0]"
  by (simp add: stack_inv_def heap_inv_def heap0_def all_vals_def)

lemma state0_inv: "state_inv (state0 p)"
  using heap0_inv by (simp add: state_inv_def state0_def traverseInstructions_def descendInToProfiles_def)

lemma heap0_values: "ctx_values heap0 0 = [Map.empty]"
  by (simp add: ctx_values_def list_values_def PCRValues_of_def heap0_def fun_eq_iff)

lemma ComputePCRValues_eval: "ComputePCRValues H p tpm = eval H tpm p [Map.empty]"
proof -
  have s0: "iter (state0 p) = p # []" "contexts (state0 p) = 0 # []"
    "ctx_values (heap (state0 p)) 0 = [Map.empty]"
    by (simp_all add: state0_def traverseInstructions_def descendInToProfiles_def heap0_values)
  have L: "level_done H tpm (state0 p) ([] # []) 0 [] (eval H tpm p [Map.empty])"
    by (rule eval_refines(1) [rule_format, OF state0_inv s0])
  show ?thesis
  proof (cases "eval H tpm p [Map.empty]")
    case (Inl e)
    with L show ?thesis by (simp add: level_done_def ComputePCRValues_def)
  next
    case (Inr l')
    with L obtain s' where s': "run H tpm (state0 p) = run H tpm s'" "iter s' = [[]]"
      "contexts s' = [0]" "ctx_values (heap s') 0 = l'"
      "parent (ctxs (heap s') 0) = parent (ctxs (heap (state0 p)) 0)"
      unfolding level_done_def by auto
    have "parent (ctxs (heap s') 0) = None" using s'(5) by (simp add: state0_def heap0_def)
    from run_Return [OF step_End_root [OF s'(2,3) this]] s'(1,4)
    show ?thesis by (simp add: Inr ComputePCRValues_def)
  qed
qed

subsection \<open>The reference semantics\<close>

lemma eval_append:
  "eval H tpm (xs @ ys) l = (case eval H tpm xs l of Inl e \<Rightarrow> Inl e | Inr l' \<Rightarrow> eval H tpm ys l')"
proof (induction xs arbitrary: l)
  case Nil
  show ?case by simp
next
  case (Cons i xs)
  show ?case
    using Cons.IH by (cases i) (auto split: option.splits sum.splits)
qed

lemma eval_branches_append:
  "eval_branches H tpm (qs @ rs) l =
     (case eval_branches H tpm qs l of
        Inl e \<Rightarrow> Inl e
      | Inr l1 \<Rightarrow> (case eval_branches H tpm rs l of Inl e \<Rightarrow> Inl e | Inr l2 \<Rightarrow> Inr (l1 @ l2)))"
  by (induction qs) (auto split: sum.splits)

lemma eval_simple_single:
  "simple is \<Longrightarrow> eval H tpm is [v] = map_sum id (\<lambda>w. [w]) (apply_instrs H tpm is v)"
proof (induction "is" arbitrary: v)
  case Nil
  show ?case by simp
next
  case (Cons i "is")
  then have "simple is" "\<not> is_branch i" by (simp_all add: simple_def)
  then show ?case
    using Cons.IH by (cases i) (auto split: option.splits sum.splits)
qed

lemma eval_simple_list:
  "simple is \<Longrightarrow> l \<noteq> [] \<Longrightarrow> list_all2 (\<lambda>v w. apply_instrs H tpm is v = Inr w) l l' \<Longrightarrow>
     eval H tpm is l = Inr l'"
proof (induction "is" arbitrary: l l')
  case Nil
  then show ?case by (simp add: list_all2_eq [symmetric])
next
  case (Cons i "is")
  then have s: "simple is" "\<not> is_branch i" by (simp_all add: simple_def)
  obtain v0 l0 where l: "l = v0 # l0" using Cons.prems(2) by (cases l) auto
  then obtain w0 l0' where l': "l' = w0 # l0'" using Cons.prems(3) by (cases l') auto
  have h: "apply_instrs H tpm (i # is) v0 = Inr w0" using Cons.prems(3) l l' by simp
  show ?case
  proof (cases i)
    case (AddPCRValue a pcr d)
    have "list_all2 (\<lambda>v w. apply_instrs H tpm is v = Inr w) (map (set_value a pcr d) l) l'"
      using Cons.prems(3) by (simp add: AddPCRValue list_all2_map1)
    from Cons.IH [OF s(1) _ this] Cons.prems(2) show ?thesis by (simp add: AddPCRValue)
  next
    case (AddPCRValueFromTPM a pcr)
    from h obtain R w where R: "tpm = Some R" "R a pcr = Inr w"
      by (auto simp: AddPCRValueFromTPM split: option.splits sum.splits)
    have "list_all2 (\<lambda>v w. apply_instrs H tpm is v = Inr w)
        (map (set_value a pcr (PCRValues_get w a pcr)) l) l'"
      using Cons.prems(3) R by (simp add: AddPCRValueFromTPM list_all2_map1)
    from Cons.IH [OF s(1) _ this] Cons.prems(2) R show ?thesis by (simp add: AddPCRValueFromTPM)
  next
    case (ExtendPCR a pcr d)
    have "list_all2 (\<lambda>v w. apply_instrs H tpm is v = Inr w) (map (extend_value H a pcr d) l) l'"
      using Cons.prems(3) by (simp add: ExtendPCR list_all2_map1)
    from Cons.IH [OF s(1) _ this] Cons.prems(2) show ?thesis by (simp add: ExtendPCR)
  next
    case (AddProfileOR ps)
    with s show ?thesis by simp
  qed
qed

lemma eval_branches_simple:
  "list_all2 (\<lambda>q v. apply_instrs H tpm q v0 = Inr v) ps vs \<Longrightarrow> \<forall>q\<in>set ps. simple q \<Longrightarrow>
     eval_branches H tpm ps [v0] = Inr vs"
  by (induction ps vs rule: list_all2_induct) (auto simp: eval_simple_single)

lemma eval_nonempty:
  "l \<noteq> [] \<longrightarrow> (case eval H tpm is l of Inl e \<Rightarrow> True | Inr l' \<Rightarrow> l' \<noteq> [])"
  "l \<noteq> [] \<longrightarrow> ps \<noteq> [] \<longrightarrow> (case eval_branches H tpm ps l of Inl e \<Rightarrow> True | Inr l' \<Rightarrow> l' \<noteq> [])"
proof (induction H tpm "is" l and H tpm ps l rule: eval_eval_branches.induct)
  case (1 H tpm l)
  show ?case by simp
next
  case (2 H tpm a pcr d "is" l)
  then show ?case by simp
next
  case (3 H tpm a pcr "is" l)
  show ?case
  proof (cases tpm)
    case None
    then show ?thesis by simp
  next
    case (Some R)
    show ?thesis
    proof (cases "R a pcr")
      case (Inl err)
      with Some show ?thesis by simp
    next
      case (Inr v)
      with 3 [OF Some Inr] Some show ?thesis by simp
    qed
  qed
next
  case (4 H tpm a pcr d "is" l)
  then show ?case by simp
next
  case (5 H tpm ps "is" l)
  show ?case
  proof (cases "ps = []")
    case True
    with 5(1) show ?thesis by simp
  next
    case False
    show ?thesis
    proof (cases "eval_branches H tpm ps l")
      case (Inl e)
      with False show ?thesis by simp
    next
      case (Inr l1)
      with 5(2) [OF False] 5(3) [OF False Inr] False show ?thesis by auto
    qed
  qed
next
  case (6 H tpm l)
  show ?case by simp
next
  case (7 H tpm p ps l)
  show ?case
  proof (cases "eval H tpm p l")
    case (Inl e)
    then show ?thesis by simp
  next
    case (Inr l1)
    with 7(1) show ?thesis by (auto split: sum.splits)
  qed
qed

lemma ComputePCRValues_nonempty: "ComputePCRValues H p tpm = Inr l \<Longrightarrow> l \<noteq> []"
  using eval_nonempty(1) [of "[Map.empty]" H tpm p] by (simp add: ComputePCRValues_eval)

lemma eval_no_tpm:
  "(\<forall>i\<in>set is. \<not> uses_tpm i) \<longrightarrow>
     eval H tpm is l = eval H None is l \<and> (\<exists>l'. eval H None is l = Inr l')"
  "(\<forall>p\<in>set ps. \<forall>i\<in>set p. \<not> uses_tpm i) \<longrightarrow>
     eval_branches H tpm ps l = eval_branches H None ps l \<and> (\<exists>l'. eval_branches H None ps l = Inr l')"
  by (induction H tpm "is" l and H tpm ps l rule: eval_eval_branches.induct)
     (auto split: option.splits sum.splits if_splits)

lemma eval_error:
  "eval H tpm is l \<noteq> Inl BranchesDiffer \<and> (\<forall>m. eval H tpm is l \<noteq> Inl (Panic m))"
  "eval_branches H tpm ps l \<noteq> Inl BranchesDiffer \<and> (\<forall>m. eval_branches H tpm ps l \<noteq> Inl (Panic m))"
proof (induction H tpm "is" l and H tpm ps l rule: eval_eval_branches.induct)
  case (1 H tpm l)
  show ?case by simp
next
  case (2 H tpm a pcr d "is" l)
  then show ?case by simp
next
  case (3 H tpm a pcr "is" l)
  show ?case
  proof (cases tpm)
    case None
    then show ?thesis by simp
  next
    case (Some R)
    show ?thesis
    proof (cases "R a pcr")
      case (Inl err)
      with Some show ?thesis by simp
    next
      case (Inr v)
      with 3 [OF Some Inr] Some show ?thesis by simp
    qed
  qed
next
  case (4 H tpm a pcr d "is" l)
  then show ?case by simp
next
  case (5 H tpm ps "is" l)
  show ?case
  proof (cases "ps = []")
    case True
    with 5(1) show ?thesis by simp
  next
    case False
    show ?thesis
    proof (cases "eval_branches H tpm ps l")
      case (Inl e)
      with 5(2) [OF False] False show ?thesis by auto
    next
      case (Inr l1)
      with 5(3) [OF False Inr] False show ?thesis by simp
    qed
  qed
next
  case (6 H tpm l)
  show ?case by simp
next
  case (7 H tpm p ps l)
  show ?case
  proof (cases "eval H tpm p l")
    case (Inl e)
    with 7(1) show ?thesis by auto
  next
    case (Inr l1)
    with 7(2) [OF Inr] show ?thesis by (auto split: sum.splits)
  qed
qed

lemma apply_instrs_no_tpm:
  "\<forall>i\<in>set is. \<not> uses_tpm i \<Longrightarrow> \<exists>w. apply_instrs H tpm is v = Inr w"
proof (induction "is" arbitrary: v)
  case Nil
  show ?case by simp
next
  case (Cons i "is")
  then show ?case by (cases i) auto
qed

lemma drop_empty_eval: "drop_empty p p' \<Longrightarrow> eval H tpm p l = eval H tpm p' l"
proof (induction arbitrary: l rule: drop_empty.induct)
  case (here xs ys)
  show ?case by (simp add: eval_append cong: sum.case_cong)
next
  case (inside q q' xs qs rs ys)
  have "eval_branches H tpm (qs @ q # rs) l' = eval_branches H tpm (qs @ q' # rs) l'" for l'
    by (simp add: eval_branches_append inside.IH cong: sum.case_cong)
  then show ?case by (simp add: eval_append cong: sum.case_cong)
qed

subsection \<open>The states of a run\<close>

lemma run_steps_run: "run_steps n H tpm s = Some s' \<Longrightarrow> run H tpm s = run H tpm s'"
proof (induction n arbitrary: s)
  case 0
  then show ?case by simp
next
  case (Suc n)
  then obtain s1 where s1: "step H tpm s = Continue s1" "run_steps n H tpm s1 = Some s'"
    by (auto split: outcome.splits)
  from run_Continue [OF s1(1)] Suc.IH [OF s1(2)] show ?case by simp
qed

lemma iter_next_length:
  "iter_next it = Some (x, it') \<Longrightarrow>
     (case x of
        EndProfileInstr \<Rightarrow> length it = Suc (length it')
      | Instr (AddProfileOR ps) \<Rightarrow> ps \<noteq> [] \<and> length it' = length ps + length it
      | Instr _ \<Rightarrow> length it' = length it)"
  by (induction it arbitrary: x it' rule: iter_next.induct)
     (auto simp: descendInToProfiles_def split: if_splits next_instr.splits instr.splits)

lemma step_inv:
  assumes inv: "state_inv s" and st: "step H tpm s = Continue s'"
  shows "state_inv s'"
proof -
  from st obtain x it where nx: "iter_next (iter s) = Some (x, it)"
    and sw: "switch_instr H tpm x (s\<lparr>iter := it\<rparr>) = Continue s'"
    by (auto simp: step_def split: option.splits)
  have "contexts s \<noteq> []" using inv by (auto simp: state_inv_def stack_inv_def)
  then obtain c crest where cs: "contexts s = c # crest" by (cases "contexts s") auto
  have si: "stack_inv (heap s) (c # crest)" using inv cs by (simp add: state_inv_def)
  have len: "length (iter s) = Suc (length crest)" using inv cs by (simp add: state_inv_def)
  note L = iter_next_length [OF nx]
  show ?thesis
  proof (cases x)
    case EndProfileInstr
    show ?thesis
    proof (cases "parent (ctxs (heap s) c)")
      case None
      with sw cs EndProfileInstr show ?thesis by (simp add: stack_top_def isRoot_def)
    next
      case (Some q)
      note F = finishBranch_props [OF si Some]
      have "s' = s\<lparr>iter := it, contexts := crest,
          heap := (heap s)\<lparr>ctxs := (ctxs (heap s))(q := (ctxs (heap s) q)
             \<lparr>vals := vals (ctxs (heap s) q) @ vals (ctxs (heap s) c)\<rparr>)\<rparr>\<rparr>"
        using sw cs EndProfileInstr Some F(1) by (simp add: stack_top_def isRoot_def)
      then show ?thesis using F(3) L len EndProfileInstr by (simp add: state_inv_def)
    qed
  next
    case (Instr i)
    show ?thesis
    proof (cases i)
      case (AddPCRValue a pcr d)
      have "s' = s\<lparr>iter := it, heap := setValue (vals (ctxs (heap s) c)) a pcr d (heap s)\<rparr>"
        using sw cs Instr AddPCRValue by (simp add: stack_top_def)
      then show ?thesis
        using setValue_top(1) [OF si] L len cs Instr AddPCRValue by (simp add: state_inv_def)
    next
      case (AddPCRValueFromTPM a pcr)
      from sw obtain R v where "tpm = Some R" "R a pcr = Inr v"
        by (auto simp: Instr AddPCRValueFromTPM split: option.splits sum.splits)
      then have "s' = s\<lparr>iter := it,
          heap := setValue (vals (ctxs (heap s) c)) a pcr (PCRValues_get v a pcr) (heap s)\<rparr>"
        using sw cs Instr AddPCRValueFromTPM by (simp add: stack_top_def)
      then show ?thesis
        using setValue_top(1) [OF si] L len cs Instr AddPCRValueFromTPM by (simp add: state_inv_def)
    next
      case (ExtendPCR a pcr d)
      have "s' = s\<lparr>iter := it, heap := extendValue H (vals (ctxs (heap s) c)) a pcr d (heap s)\<rparr>"
        using sw cs Instr ExtendPCR by (simp add: stack_top_def)
      then show ?thesis
        using extendValue_top(1) [OF si] L len cs Instr ExtendPCR by (simp add: state_inv_def)
    next
      case (AddProfileOR ps)
      have "s' = s\<lparr>iter := it, contexts := fst (handleBranches (length ps) c (heap s)) @ c # crest,
          heap := snd (handleBranches (length ps) c (heap s))\<rparr>"
        using sw cs Instr AddProfileOR by (simp add: stack_top_def split_beta)
      then show ?thesis
        using handleBranches_props(1,2) [OF si, of "length ps"] L len Instr AddProfileOR
        by (simp add: state_inv_def)
    qed
  qed
qed

lemma run_steps_inv: "state_inv s \<Longrightarrow> run_steps n H tpm s = Some s' \<Longrightarrow> state_inv s'"
proof (induction n arbitrary: s)
  case 0
  then show ?case by simp
next
  case (Suc n)
  then obtain s1 where s1: "step H tpm s = Continue s1" "run_steps n H tpm s1 = Some s'"
    by (auto split: outcome.splits)
  from Suc.IH [OF step_inv [OF Suc.prems(1) s1(1)] s1(2)] show ?case .
qed


subsection \<open>Digests\<close>

lemma branch_digests_eq:
  "branch_digests H a pcrs vs acc =
     (if \<forall>v\<in>set vs. SelectionList v = pcrs then Inr (acc @ map (PCRDigest H a) vs)
      else Inl BranchesDiffer)"
  by (induction vs arbitrary: acc) (auto simp: ComputePCRDigestSimple_def)

lemma unique_digests_eq:
  "unique_digests ds u = u @ dedup_first (filter (\<lambda>d. d \<notin> set u) ds)"
proof (induction ds arbitrary: u)
  case Nil
  show ?case by simp
next
  case (Cons d ds)
  show ?case
  proof (cases "d \<in> set u")
    case True
    then show ?thesis by (simp add: Cons.IH list_ex_iff)
  next
    case False
    have "filter (\<lambda>x. x \<noteq> d) (filter (\<lambda>x. x \<notin> set u) ds) = filter (\<lambda>x. x \<notin> set (u @ [d])) ds"
      by (auto intro: filter_cong)
    with False show ?thesis by (simp add: Cons.IH list_ex_iff)
  qed
qed

lemma dedup_first_set: "set (dedup_first xs) = set xs"
  by (induction xs rule: dedup_first.induct) auto

lemma dedup_first_distinct: "distinct (dedup_first xs)"
  by (induction xs rule: dedup_first.induct) (auto simp: dedup_first_set)

lemma SelectionList_entry: "(a, pcr) \<in> SelectionList v \<longleftrightarrow> PCRValues_entry v a pcr \<noteq> None"
  by (simp add: SelectionList_def)

lemma SelectionList_empty: "SelectionList Map.empty = {}"
  by (simp add: SelectionList_def PCRValues_entry_def)

lemma SelectionList_upd:
  "SelectionList (v(a \<mapsto> m)) = {a} \<times> dom m \<union> (SelectionList v - {a} \<times> UNIV)"
  by (auto simp: SelectionList_def PCRValues_entry_def split: if_splits)

subsection \<open>Extending a PCR that has no value yet\<close>

lemma extend1_fresh:
  assumes "PCRValues_entry (PCRValues_of h v) a pcr = None"
  shows "extend1 H a pcr d v h = SetValue a pcr (Sum H a (replicate (Size H a) 0 @ d)) v h"
proof (cases "map_of (pcrvals h v) a")
  case None
  then show ?thesis by (simp add: extend1_def SetValue_def bank_of_def)
next
  case (Some b)
  with assms have "banks h b pcr = None"
    by (simp add: PCRValues_entry_def PCRValues_of_def)
  with Some show ?thesis by (simp add: extend1_def SetValue_def bank_of_def)
qed

lemma extendValue_fresh:
  assumes "heap_inv h" "distinct l" "\<forall>x\<in>set l. x < npcrvals h"
    "\<forall>x\<in>set l. PCRValues_entry (PCRValues_of h x) a pcr = None"
  shows "extendValue H l a pcr d h = setValue l a pcr (Sum H a (replicate (Size H a) 0 @ d)) h"
  using assms
proof (induction l arbitrary: h)
  case Nil
  show ?case by (simp add: extendValue_def setValue_def)
next
  case (Cons v l)
  let ?d = "Sum H a (replicate (Size H a) 0 @ d)"
  let ?h = "SetValue a pcr ?d v h"
  have e: "extend1 H a pcr d v h = ?h" using Cons.prems(4) by (simp add: extend1_fresh)
  have i: "heap_inv ?h" using Cons.prems(1,3) by (simp add: SetValue_update update_bank_inv)
  have n: "\<forall>x\<in>set l. x < npcrvals ?h" using Cons.prems(3) by (simp add: SetValue_update)
  have "PCRValues_of ?h x = PCRValues_of h x" if "x \<in> set l" for x
    unfolding SetValue_update using Cons.prems(1-3) that by (intro update_bank_other) auto
  then have f: "\<forall>x\<in>set l. PCRValues_entry (PCRValues_of ?h x) a pcr = None"
    using Cons.prems(4) by simp
  have d: "distinct l" using Cons.prems(2) by simp
  from Cons.IH [OF i d n f] show ?case
    by (simp add: extendValue_def setValue_def e)
qed

subsection \<open>No aliasing between the contexts of the stack\<close>

lemma all_vals_member:
  "distinct (all_vals h st) \<Longrightarrow> k \<in> set st \<Longrightarrow> distinct (vals (ctxs h k))"
  by (induction st) (auto simp: all_vals_def)

lemma all_vals_disjoint:
  "distinct (all_vals h st) \<Longrightarrow> q \<in> set st \<Longrightarrow> k \<in> set st \<Longrightarrow> q \<noteq> k \<Longrightarrow>
     set (vals (ctxs h q)) \<inter> set (vals (ctxs h k)) = {}"
  by (induction st) (auto simp: all_vals_def)

lemma update_any:
  fixes f :: "(int \<rightharpoonup> digest) \<Rightarrow> (int \<rightharpoonup> digest)" and a :: alg
  assumes "heap_inv h" "distinct (all_vals h st)" "\<forall>x\<in>set (all_vals h st). x < npcrvals h" "k \<in> set st"
  defines "h' \<equiv> fold (update_bank f a) (vals (ctxs h k)) h"
  shows "heap_inv h'" and "ctxs h' = ctxs h" and "npcrvals h' = npcrvals h"
    and "\<forall>q\<in>set st. q \<noteq> k \<longrightarrow> ctx_values h' q = ctx_values h q"
proof -
  have d: "distinct (vals (ctxs h k))" by (rule all_vals_member [OF assms(2,4)])
  have b: "\<forall>x\<in>set (vals (ctxs h k)). x < npcrvals h"
    using assms(3,4) by (auto simp: all_vals_def)
  note F = fold_update_bank [OF assms(1) d b, of f a, folded h'_def]
  show "heap_inv h'" by (rule F(1))
  show c: "ctxs h' = ctxs h" by (rule F(3))
  show "npcrvals h' = npcrvals h" by (rule F(2))
  show "\<forall>q\<in>set st. q \<noteq> k \<longrightarrow> ctx_values h' q = ctx_values h q"
  proof (intro ballI impI)
    fix q assume q: "q \<in> set st" "q \<noteq> k"
    have dis: "set (vals (ctxs h q)) \<inter> set (vals (ctxs h k)) = {}"
      by (rule all_vals_disjoint [OF assms(2) q(1) assms(4) q(2)])
    have "\<forall>x\<in>set (vals (ctxs h q)). x < npcrvals h"
      using assms(3) q(1) by (auto simp: all_vals_def)
    with dis F(6) have "\<forall>x\<in>set (vals (ctxs h q)). PCRValues_of h' x = PCRValues_of h x"
      by auto
    then show "ctx_values h' q = ctx_values h q"
      by (simp add: ctx_values_def list_values_def c)
  qed
qed

lemma apply_updates_frame:
  assumes "heap_inv h" "distinct (all_vals h st)" "\<forall>x\<in>set (all_vals h st). x < npcrvals h" "k \<in> set st"
    and "q \<in> set st" "q \<noteq> k"
  shows "ctx_values (apply_updates H is (vals (ctxs h k)) h) q = ctx_values h q"
proof -
  have "l = vals (ctxs h k) \<Longrightarrow> heap_inv h \<Longrightarrow> distinct (all_vals h st) \<Longrightarrow>
      \<forall>x\<in>set (all_vals h st). x < npcrvals h \<Longrightarrow>
      ctx_values (apply_updates H is l h) q = ctx_values h q" for l
  proof (induction H "is" l h rule: apply_updates.induct)
    case (1 H l h)
    show ?case by simp
  next
    case (2 H a pcr d "is" l h)
    let ?h = "setValue l a pcr d h"
    note U = update_any [OF 2(3,4,5) assms(4), of "\<lambda>m. m(pcr \<mapsto> d)" a,
        folded SetValue_update setValue_def, folded 2(2)]
    have av: "all_vals ?h st = all_vals h st" by (rule all_vals_cong) (simp add: U(2))
    have l': "l = vals (ctxs ?h k)" using 2(2) U(2) by simp
    have d': "distinct (all_vals ?h st)" unfolding av by (rule 2(4))
    have b': "\<forall>x\<in>set (all_vals ?h st). x < npcrvals ?h" unfolding av U(3) by (rule 2(5))
    from 2(1) [OF l' U(1) d' b'] show ?case using U(4) assms(5,6) by simp
  next
    case (3 H a pcr d "is" l h)
    let ?h = "extendValue H l a pcr d h"
    note U = update_any [OF 3(3,4,5) assms(4),
        of "\<lambda>m. m(pcr \<mapsto> Sum H a ((case m pcr of None \<Rightarrow> replicate (Size H a) 0 | Some x \<Rightarrow> x) @ d))" a,
        folded extend1_update extendValue_def, folded 3(2)]
    have av: "all_vals ?h st = all_vals h st" by (rule all_vals_cong) (simp add: U(2))
    have l': "l = vals (ctxs ?h k)" using 3(2) U(2) by simp
    have d': "distinct (all_vals ?h st)" unfolding av by (rule 3(4))
    have b': "\<forall>x\<in>set (all_vals ?h st). x < npcrvals ?h" unfolding av U(3) by (rule 3(5))
    from 3(1) [OF l' U(1) d' b'] show ?case using U(4) assms(5,6) by simp
  qed simp_all
  from this [OF refl assms(1-3)] show ?thesis .
qed

lemma all_banks_distinct:
  assumes "heap_inv h" "distinct l" "\<forall>x\<in>set l. x < npcrvals h"
  shows "distinct (all_banks h l)"
  using assms(2,3)
proof (induction l)
  case Nil
  show ?case by (simp add: all_banks_def)
next
  case (Cons x l)
  have x: "x < npcrvals h" using Cons.prems by simp
  have "inj_on snd (set (pcrvals h x))"
    using heap_invD3 [OF assms(1) x x] by (auto simp: inj_on_def)
  moreover have "distinct (pcrvals h x)"
    using heap_invD1 [OF assms(1) x] by (simp add: distinct_map)
  ultimately have 1: "distinct (map snd (pcrvals h x))"
    by (simp add: distinct_map)
  have 2: "snd ` set (pcrvals h x) \<inter> set (all_banks h l) = {}"
  proof (rule ccontr)
    assume "snd ` set (pcrvals h x) \<inter> set (all_banks h l) \<noteq> {}"
    then obtain a b y a' where "(a, b) \<in> set (pcrvals h x)" "y \<in> set l" "(a', b) \<in> set (pcrvals h y)"
      by (auto simp: all_banks_def)
    with heap_invD3 [OF assms(1) x, of y a b a'] Cons.prems show False by auto
  qed
  from Cons.IH 1 2 Cons.prems show ?case by (simp add: all_banks_def)
qed

section \<open>The claims\<close>

text \<open>
  C1. Let a profile consist of simple instructions \<open>pre\<close>, a branch with N \<ge> 1 simple
  sub-profiles \<open>ps\<close>, and simple instructions \<open>post\<close> (none, in the claim). If the
  sequential application of \<open>pre\<close> to the empty set gives \<open>v0\<close>, the application of the
  i-th sub-profile to \<open>v0\<close> gives the i-th element of \<open>vs\<close>, and the application of
  \<open>post\<close> to that gives the i-th element of \<open>ws\<close>, then \<^verbatim>\<open>ComputePCRValues\<close> returns
  \<open>ws\<close>: exactly N sets, in the order of the sub-profiles, each the parent's values as
  set before the branch with the sub-profile's own instructions applied on top.
\<close>

theorem C1_branch_paths_in_order:
  assumes "simple pre" and "\<forall>q\<in>set ps. simple q" and "ps \<noteq> []" and "simple post"
    and "apply_instrs H tpm pre Map.empty = Inr v0"
    and "list_all2 (\<lambda>q v. apply_instrs H tpm q v0 = Inr v) ps vs"
    and "list_all2 (\<lambda>v w. apply_instrs H tpm post v = Inr w) vs ws"
  shows "ComputePCRValues H (pre @ AddProfileOR ps # post) tpm = Inr ws \<and> length ws = length ps"
proof -
  have 1: "eval H tpm pre [Map.empty] = Inr [v0]"
    using assms(1,5) by (simp add: eval_simple_single)
  have 2: "eval_branches H tpm ps [v0] = Inr vs"
    by (rule eval_branches_simple [OF assms(6,2)])
  have "length vs = length ps" using assms(6) by (simp add: list_all2_lengthD)
  then have ne: "vs \<noteq> []" using assms(3) by auto
  have 3: "eval H tpm post vs = Inr ws"
    by (rule eval_simple_list [OF assms(4) ne assms(7)])
  have "length ws = length ps"
    using assms(6,7) by (simp add: list_all2_lengthD)
  then show ?thesis
    using 1 2 3 assms(3) by (simp add: ComputePCRValues_eval eval_append)
qed

theorem C1_branch_paths_in_order_witness:
  "ComputePCRValues example_hashes
     ([AddPCRValue 11 7 [1, 1]] @
       AddProfileOR [[AddPCRValue 11 12 [2, 2]], [AddPCRValue 11 7 [9, 9], ExtendPCR 11 12 [3, 4]]] # []) None =
   Inr [[11 \<mapsto> [7 \<mapsto> [1, 1], 12 \<mapsto> [2, 2]]], [11 \<mapsto> [7 \<mapsto> [9, 9], 12 \<mapsto> [4, 3]]]] \<and>
   length [[11 \<mapsto> [7 \<mapsto> [1, 1], 12 \<mapsto> [2, 2]]], [11 \<mapsto> [7 \<mapsto> [9, 9], 12 \<mapsto> [4, 3 :: 8 word]]]] =
   length [[AddPCRValue 11 12 [2, 2]], [AddPCRValue 11 7 [9, 9], ExtendPCR 11 12 [3, 4]]]"
  using C1_branch_paths_in_order
    [of "[AddPCRValue 11 7 [1, 1]]"
      "[[AddPCRValue 11 12 [2, 2]], [AddPCRValue 11 7 [9, 9], ExtendPCR 11 12 [3, 4]]]" "[]"
      example_hashes None "[11 \<mapsto> [7 \<mapsto> [1, 1]]]"
      "[[11 \<mapsto> [7 \<mapsto> [1, 1], 12 \<mapsto> [2, 2]]], [11 \<mapsto> [7 \<mapsto> [9, 9], 12 \<mapsto> [4, 3]]]]"
      "[[11 \<mapsto> [7 \<mapsto> [1, 1], 12 \<mapsto> [2, 2]]], [11 \<mapsto> [7 \<mapsto> [9, 9], 12 \<mapsto> [4, 3]]]]"]
  by (simp add: simple_def set_value_def extend_value_def example_hashes_def)

text \<open>
  C2. For every profile without a branch, \<^verbatim>\<open>ComputePCRValues\<close> returns what the
  sequential application of the instructions, in declaration order, to the empty set of
  PCR values gives: exactly one set of PCR values (always so when no instruction reads
  the TPM), or else the error of the read of the TPM that fails. In that application an \<^verbatim>\<open>AddPCRValue\<close> sets the value of its (algorithm,
  register) key, replacing an earlier one, an \<^verbatim>\<open>ExtendPCR\<close> replaces the value with the
  hash of the earlier value (zeroes when there is none) followed by the supplied one,
  and both leave every other key as it was.
\<close>

theorem C2_no_branch_sequential:
  assumes "simple p"
  shows "ComputePCRValues H p tpm = map_sum id (\<lambda>v. [v]) (apply_instrs H tpm p Map.empty) \<and>
    ((\<forall>i\<in>set p. \<not> uses_tpm i) \<longrightarrow>
       (\<exists>w. apply_instrs H tpm p Map.empty = Inr w \<and> ComputePCRValues H p tpm = Inr [w])) \<and>
    PCRValues_entry (set_value a pcr d v) a' pcr' =
      (if a' = a \<and> pcr' = pcr then Some d else PCRValues_entry v a' pcr') \<and>
    PCRValues_entry (extend_value H a pcr d v) a' pcr' =
      (if a' = a \<and> pcr' = pcr
       then Some (Sum H a ((case PCRValues_entry v a pcr of None \<Rightarrow> replicate (Size H a) 0 | Some x \<Rightarrow> x) @ d))
       else PCRValues_entry v a' pcr')"
proof (intro conjI)
  show e: "ComputePCRValues H p tpm = map_sum id (\<lambda>v. [v]) (apply_instrs H tpm p Map.empty)"
    using assms by (simp add: ComputePCRValues_eval eval_simple_single)
  show "(\<forall>i\<in>set p. \<not> uses_tpm i) \<longrightarrow>
       (\<exists>w. apply_instrs H tpm p Map.empty = Inr w \<and> ComputePCRValues H p tpm = Inr [w])"
    using apply_instrs_no_tpm [of p H tpm Map.empty] by (auto simp: e)
  show "PCRValues_entry (set_value a pcr d v) a' pcr' =
      (if a' = a \<and> pcr' = pcr then Some d else PCRValues_entry v a' pcr')"
    by (auto simp: PCRValues_entry_def set_value_def split: option.splits)
  show "PCRValues_entry (extend_value H a pcr d v) a' pcr' =
      (if a' = a \<and> pcr' = pcr
       then Some (Sum H a ((case PCRValues_entry v a pcr of None \<Rightarrow> replicate (Size H a) 0 | Some x \<Rightarrow> x) @ d))
       else PCRValues_entry v a' pcr')"
    by (auto simp: PCRValues_entry_def extend_value_def Let_def split: option.splits)
qed

theorem C2_no_branch_sequential_witness:
  "ComputePCRValues example_hashes
     [AddPCRValue 11 7 [1, 1], AddPCRValue 11 7 [2, 2], ExtendPCR 11 7 [3, 4], AddPCRValue 4 0 [5, 5]] None =
   Inr [[11 \<mapsto> [7 \<mapsto> [4, 3]], 4 \<mapsto> [0 \<mapsto> [5, 5]]]]"
  using C2_no_branch_sequential
    [of "[AddPCRValue 11 7 [1, 1], AddPCRValue 11 7 [2, 2], ExtendPCR 11 7 [3, 4], AddPCRValue 4 0 [5, 5]]"
      example_hashes None]
  by (simp add: simple_def set_value_def extend_value_def example_hashes_def)

text \<open>
  C3. Let \<open>s\<close> be a state the loop of \<^verbatim>\<open>ComputePCRValues\<close> reaches in which \<^verbatim>\<open>next\<close>
  returns a branch with sub-profiles \<open>ps\<close> (then \<open>ps\<close> is not empty). The turn of the loop
  pushes one new context per sub-profile on the stack; each has the former top context
  \<open>c\<close> as parent and a list with the content the list of \<open>c\<close> had, and the list of \<open>c\<close> is
  cleared. No map is shared: the \<^verbatim>\<open>PCRValues\<close> in the lists of all contexts of the stack
  are different objects, and so are all their inner maps (the copies hold the same
  digests, whose bytes no instruction writes). Whatever sequence of
  \<^verbatim>\<open>AddPCRValue\<close> and \<^verbatim>\<open>ExtendPCR\<close> instructions is then applied to the list of one new
  context, the content of the list of every other context of the stack, the sibling
  contexts and the parent among them, stays as it was.
\<close>

theorem C3_branch_contexts_do_not_alias:
  assumes "run_steps n H tpm (state0 p) = Some s"
    and "iter_next (iter s) = Some (Instr (AddProfileOR ps), it)"
  shows "\<exists>c cs news s1.
     contexts s = c # cs \<and> step H tpm s = Continue s1 \<and>
     contexts s1 = news @ c # cs \<and> length news = length ps \<and> ps \<noteq> [] \<and>
     vals (ctxs (heap s1) c) = [] \<and>
     (\<forall>k\<in>set news. parent (ctxs (heap s1) k) = Some c \<and>
        ctx_values (heap s1) k = ctx_values (heap s) c) \<and>
     distinct (all_vals (heap s1) (contexts s1)) \<and>
     distinct (all_banks (heap s1) (all_vals (heap s1) (contexts s1))) \<and>
     (\<forall>k\<in>set news. \<forall>q\<in>set (contexts s1). \<forall>is. q \<noteq> k \<longrightarrow>
        ctx_values (apply_updates H is (vals (ctxs (heap s1) k)) (heap s1)) q =
        ctx_values (heap s1) q)"
proof -
  have inv: "state_inv s" by (rule run_steps_inv [OF state0_inv assms(1)])
  then have "contexts s \<noteq> []" by (auto simp: state_inv_def stack_inv_def)
  then obtain c cs where c: "contexts s = c # cs" by (cases "contexts s") auto
  have si: "stack_inv (heap s) (c # cs)" using inv c by (simp add: state_inv_def)
  let ?news = "fst (handleBranches (length ps) c (heap s))"
  let ?h1 = "snd (handleBranches (length ps) c (heap s))"
  let ?s1 = "s\<lparr>iter := it, contexts := ?news @ c # cs, heap := ?h1\<rparr>"
  note B = handleBranches_props [OF si, of "length ps"]
  have ne: "ps \<noteq> []" using iter_next_length [OF assms(2)] by simp
  have st: "step H tpm s = Continue ?s1"
    using assms(2) c by (simp add: step_def stack_top_def split_beta)
  have hi: "heap_inv ?h1" and d: "distinct (all_vals ?h1 (?news @ c # cs))"
    and b: "\<forall>x\<in>set (all_vals ?h1 (?news @ c # cs)). x < npcrvals ?h1"
    using B(1) by (simp_all add: stack_inv_def)
  have fr: "ctx_values (apply_updates H is (vals (ctxs ?h1 k)) ?h1) q = ctx_values ?h1 q"
    if "k \<in> set ?news" "q \<in> set (?news @ c # cs)" "q \<noteq> k" for k q "is"
    using that by (intro apply_updates_frame [OF hi d b]) auto
  have "contexts s = c # cs \<and> step H tpm s = Continue ?s1 \<and>
     contexts ?s1 = ?news @ c # cs \<and> length ?news = length ps \<and> ps \<noteq> [] \<and>
     vals (ctxs (heap ?s1) c) = [] \<and>
     (\<forall>k\<in>set ?news. parent (ctxs (heap ?s1) k) = Some c \<and>
        ctx_values (heap ?s1) k = ctx_values (heap s) c) \<and>
     distinct (all_vals (heap ?s1) (contexts ?s1)) \<and>
     distinct (all_banks (heap ?s1) (all_vals (heap ?s1) (contexts ?s1))) \<and>
     (\<forall>k\<in>set ?news. \<forall>q\<in>set (contexts ?s1). \<forall>is. q \<noteq> k \<longrightarrow>
        ctx_values (apply_updates H is (vals (ctxs (heap ?s1) k)) (heap ?s1)) q =
        ctx_values (heap ?s1) q)"
    using c st B(2,3,5) ne d all_banks_distinct [OF hi d b] fr by simp
  then show ?thesis by blast
qed

theorem C3_branch_contexts_do_not_alias_witness:
  "\<exists>c cs news s1.
     contexts (state0 [AddProfileOR [[AddPCRValue 11 7 [1, 1]], [ExtendPCR 11 7 [3, 4]]]]) = c # cs \<and>
     step example_hashes None (state0 [AddProfileOR [[AddPCRValue 11 7 [1, 1]], [ExtendPCR 11 7 [3, 4]]]]) =
       Continue s1 \<and>
     contexts s1 = news @ c # cs \<and>
     length news = length [[AddPCRValue 11 7 [1, 1]], [ExtendPCR 11 7 [3, 4]]] \<and>
     [[AddPCRValue 11 7 [1, 1]], [ExtendPCR 11 7 [3, 4]]] \<noteq> [] \<and>
     vals (ctxs (heap s1) c) = [] \<and>
     (\<forall>k\<in>set news. parent (ctxs (heap s1) k) = Some c \<and>
        ctx_values (heap s1) k =
        ctx_values (heap (state0 [AddProfileOR [[AddPCRValue 11 7 [1, 1]], [ExtendPCR 11 7 [3, 4]]]])) c) \<and>
     distinct (all_vals (heap s1) (contexts s1)) \<and>
     distinct (all_banks (heap s1) (all_vals (heap s1) (contexts s1))) \<and>
     (\<forall>k\<in>set news. \<forall>q\<in>set (contexts s1). \<forall>is. q \<noteq> k \<longrightarrow>
        ctx_values (apply_updates example_hashes is (vals (ctxs (heap s1) k)) (heap s1)) q =
        ctx_values (heap s1) q)"
proof -
  have 1: "run_steps 0 example_hashes None
      (state0 [AddProfileOR [[AddPCRValue 11 7 [1, 1]], [ExtendPCR 11 7 [3, 4]]]]) =
      Some (state0 [AddProfileOR [[AddPCRValue 11 7 [1, 1]], [ExtendPCR 11 7 [3, 4]]]])"
    by simp
  have 2: "iter_next (iter (state0 [AddProfileOR [[AddPCRValue 11 7 [1, 1]], [ExtendPCR 11 7 [3, 4]]]])) =
      Some (Instr (AddProfileOR [[AddPCRValue 11 7 [1, 1]], [ExtendPCR 11 7 [3, 4]]]),
        [[AddPCRValue 11 7 [1, 1]], [ExtendPCR 11 7 [3, 4]], []])"
    by (simp add: state0_def traverseInstructions_def descendInToProfiles_def)
  from C3_branch_contexts_do_not_alias [OF 1 2] show ?thesis .
qed

text \<open>
  C4 (as stated, refuted). As stated, \<^verbatim>\<open>next\<close> pops the exhausted root level without
  returning an end-of-branch marker. The code returns the marker for every
  exhausted level, the root included: the traversal of a profile with one instruction
  returns that instruction and then \<^verbatim>\<open>pcrProtectionProfileEndProfileInstr\<close>, leaving no
  level behind.
\<close>

theorem C4_root_marker_counterexample:
  "iter_next (traverseInstructions [AddPCRValueFromTPM 11 7]) =
     Some (Instr (AddPCRValueFromTPM 11 7), [[]]) \<and>
   iter_next [[]] = Some (EndProfileInstr, [])"
  by (simp add: traverseInstructions_def descendInToProfiles_def)

text \<open>
  C4 (amended). \<^verbatim>\<open>next\<close> pops an exhausted level and returns the end-of-branch marker,
  whether or not levels remain below it; and a turn of the loop of
  \<^verbatim>\<open>ComputePCRValues\<close> returns a list exactly when \<^verbatim>\<open>next\<close> has returned the marker
  and the context on top of the stack is the root (it has no parent): the list is then
  the content of that context's values.
\<close>

theorem C4_root_detected_on_marker:
  "iter_next ([] # rest) = Some (EndProfileInstr, rest) \<and>
   (step H tpm s = Return l \<longleftrightarrow>
      (\<exists>it c cs. iter_next (iter s) = Some (EndProfileInstr, it) \<and> contexts s = c # cs \<and>
         isRoot c (heap s) \<and> l = ctx_values (heap s) c))"
proof
  show "iter_next ([] # rest) = Some (EndProfileInstr, rest)" by simp
  show "step H tpm s = Return l \<longleftrightarrow>
      (\<exists>it c cs. iter_next (iter s) = Some (EndProfileInstr, it) \<and> contexts s = c # cs \<and>
         isRoot c (heap s) \<and> l = ctx_values (heap s) c)"
  proof (cases "iter_next (iter s)")
    case None
    then show ?thesis by (simp add: step_def)
  next
    case (Some x)
    obtain i it where x: "x = (i, it)" by (cases x)
    show ?thesis
      unfolding step_def Some x
      by (cases "(H, tpm, i, s\<lparr>iter := it\<rparr>)" rule: switch_instr.cases)
         (auto simp: stack_top_def split: option.splits sum.splits list.splits prod.splits)
  qed
qed

theorem C4_root_detected_on_marker_witness:
  "iter_next [[]] = Some (EndProfileInstr, []) \<and>
   step example_hashes None (state0 []) = Return [Map.empty]"
proof -
  have "isRoot 0 (heap (state0 []))" by (simp add: isRoot_def state0_def heap0_def)
  moreover have "iter_next (iter (state0 [])) = Some (EndProfileInstr, [])"
    by (simp add: state0_def traverseInstructions_def descendInToProfiles_def)
  moreover have "contexts (state0 []) = [0]" by (simp add: state0_def)
  moreover have "ctx_values (heap (state0 [])) 0 = [Map.empty]"
    by (simp add: state0_def heap0_values)
  ultimately show ?thesis
    using C4_root_detected_on_marker [of "[]" example_hashes None "state0 []" "[Map.empty]"]
    by auto
qed

text \<open>
  C5. An \<^verbatim>\<open>AddProfileOR\<close> without sub-profiles is skipped by the iterator: \<^verbatim>\<open>next\<close>
  never returns it, and with the instruction at the front of the innermost level it
  returns the same instruction (or marker) and leaves the same iterator as with the
  instruction absent, so it opens no level and no marker is returned for it. For a
  profile \<open>p\<close> and the profile \<open>p'\<close> that is \<open>p\<close> with one such instruction taken out, at the
  top or inside a sub-profile at any depth, \<^verbatim>\<open>ComputePCRValues\<close> gives the same result.
\<close>

theorem C5_empty_branch_skipped:
  assumes "drop_empty p p'"
  shows "(\<forall>it it'. iter_next it \<noteq> Some (Instr (AddProfileOR []), it')) \<and>
    (\<forall>is rest. iter_next ((AddProfileOR [] # is) # rest) = iter_next (is # rest)) \<and>
    ComputePCRValues H p tpm = ComputePCRValues H p' tpm"
proof (intro conjI allI)
  fix it it'
  show "iter_next it \<noteq> Some (Instr (AddProfileOR []), it')"
    using iter_next_length [of it "Instr (AddProfileOR [])" it'] by auto
next
  fix "is" rest
  show "iter_next ((AddProfileOR [] # is) # rest) = iter_next (is # rest)" by simp
next
  show "ComputePCRValues H p tpm = ComputePCRValues H p' tpm"
    using drop_empty_eval [OF assms] by (simp add: ComputePCRValues_eval)
qed

theorem C5_empty_branch_skipped_witness:
  "ComputePCRValues example_hashes
     [AddPCRValue 11 7 [1, 1], AddProfileOR [[AddPCRValue 11 12 [2, 2], AddProfileOR [], ExtendPCR 11 12 [3, 4]], []]] None =
   ComputePCRValues example_hashes
     [AddPCRValue 11 7 [1, 1], AddProfileOR [[AddPCRValue 11 12 [2, 2], ExtendPCR 11 12 [3, 4]], []]] None"
proof -
  have "drop_empty [AddPCRValue 11 12 [2, 2], AddProfileOR [], ExtendPCR 11 12 [3, 4]]
      [AddPCRValue 11 12 [2, 2], ExtendPCR 11 12 [3, 4]]"
    using drop_empty.here [of "[AddPCRValue 11 12 [2, 2]]" "[ExtendPCR 11 12 [3, 4]]"] by simp
  from drop_empty.inside [OF this, of "[AddPCRValue 11 7 [1, 1]]" "[]" "[[]]" "[]"]
  have "drop_empty
      [AddPCRValue 11 7 [1, 1], AddProfileOR [[AddPCRValue 11 12 [2, 2], AddProfileOR [], ExtendPCR 11 12 [3, 4]], []]]
      [AddPCRValue 11 7 [1, 1], AddProfileOR [[AddPCRValue 11 12 [2, 2], ExtendPCR 11 12 [3, 4]], []]]"
    by simp
  from C5_empty_branch_skipped [OF this, of example_hashes None] show ?thesis by simp
qed

text \<open>
  C6. When \<^verbatim>\<open>ComputePCRValues\<close> returns a list of value sets, the list is not empty, and
  \<^verbatim>\<open>ComputePCRDigests\<close> takes the PCR selection of its first element, the set of the
  (algorithm, register) keys that have a value there, as the selection it returns: it
  succeeds with that selection if every set of the list has exactly this key set, and
  fails with the error "not all branches contain values for the same sets of PCRs" if
  some set has another key set. When \<^verbatim>\<open>ComputePCRValues\<close> fails, \<^verbatim>\<open>ComputePCRDigests\<close>
  fails with the same error, which is never that one.
\<close>

theorem C6_selection_of_first_branch:
  "(case ComputePCRValues H p tpm of
      Inl e \<Rightarrow> ComputePCRDigests H p tpm a = Inl e \<and> e \<noteq> BranchesDiffer
    | Inr l \<Rightarrow>
        l \<noteq> [] \<and>
        (if \<forall>v\<in>set l. SelectionList v = SelectionList (hd l)
         then \<exists>ds. ComputePCRDigests H p tpm a = Inr (SelectionList (hd l), ds)
         else ComputePCRDigests H p tpm a = Inl BranchesDiffer)) \<and>
   ((b, pcr) \<in> SelectionList v \<longleftrightarrow> PCRValues_entry v b pcr \<noteq> None)"
proof (cases "ComputePCRValues H p tpm")
  case (Inl e)
  then have "e \<noteq> BranchesDiffer"
    using eval_error(1) [of H tpm p "[Map.empty]"] by (auto simp: ComputePCRValues_eval)
  then show ?thesis
    by (simp add: ComputePCRDigests_def Inl SelectionList_entry)
next
  case (Inr l)
  have ne: "l \<noteq> []" by (rule ComputePCRValues_nonempty [OF Inr])
  then obtain v0 vs where v: "l = v0 # vs" by (cases l) auto
  show ?thesis
    using ne
    by (auto simp: ComputePCRDigests_def Inr v branch_digests_eq SelectionList_entry Let_def)
qed

theorem C6_selection_of_first_branch_witness:
  "ComputePCRDigests example_hashes
     [AddProfileOR [[AddPCRValue 11 7 [1, 1], AddPCRValue 11 12 [2, 2]],
                    [AddPCRValue 11 7 [1, 1], AddPCRValue 11 8 [2, 2]]]] None 11 = Inl BranchesDiffer \<and>
   (\<exists>ds. ComputePCRDigests example_hashes
     [AddProfileOR [[AddPCRValue 11 7 [1, 1], AddPCRValue 11 12 [2, 2]],
                    [AddPCRValue 11 12 [3, 3], AddPCRValue 11 7 [1, 1]]]] None 11 = Inr ({(11, 7), (11, 12)}, ds))"
proof -
  have 1: "ComputePCRValues example_hashes
     [AddProfileOR [[AddPCRValue 11 7 [1, 1], AddPCRValue 11 12 [2, 2]],
                    [AddPCRValue 11 7 [1, 1], AddPCRValue 11 8 [2, 2]]]] None =
     Inr [[11 \<mapsto> [7 \<mapsto> [1, 1], 12 \<mapsto> [2, 2]]], [11 \<mapsto> [7 \<mapsto> [1, 1], 8 \<mapsto> [2, 2]]]]"
    by (simp add: ComputePCRValues_eval set_value_def)
  have 2: "ComputePCRValues example_hashes
     [AddProfileOR [[AddPCRValue 11 7 [1, 1], AddPCRValue 11 12 [2, 2]],
                    [AddPCRValue 11 12 [3, 3], AddPCRValue 11 7 [1, 1]]]] None =
     Inr [[11 \<mapsto> [7 \<mapsto> [1, 1], 12 \<mapsto> [2, 2]]], [11 \<mapsto> [12 \<mapsto> [3, 3], 7 \<mapsto> [1, 1]]]]"
    by (simp add: ComputePCRValues_eval set_value_def)
  have s: "SelectionList [11 \<mapsto> [7 \<mapsto> [1, 1], 12 \<mapsto> [2, 2 :: 8 word]]] = {(11, 7), (11, 12)}"
    "SelectionList [11 \<mapsto> [7 \<mapsto> [1, 1], 8 \<mapsto> [2, 2 :: 8 word]]] = {(11, 7), (11, 8)}"
    "SelectionList [11 \<mapsto> [12 \<mapsto> [3, 3], 7 \<mapsto> [1, 1 :: 8 word]]] = {(11, 7), (11, 12)}"
    by (auto simp: SelectionList_upd SelectionList_empty)
  have "(11, 8) \<in> {(11 :: alg, 7 :: int), (11, 8)}" by simp
  moreover have "(11, 8) \<notin> {(11 :: alg, 7 :: int), (11, 12)}" by simp
  ultimately have ne: "{(11 :: alg, 7 :: int), (11, 8)} \<noteq> {(11, 7), (11, 12)}" by metis
  let ?p1 = "[AddProfileOR [[AddPCRValue 11 7 [1, 1], AddPCRValue 11 12 [2, 2]],
                    [AddPCRValue 11 7 [1, 1], AddPCRValue 11 8 [2, 2]]]]"
  let ?p2 = "[AddProfileOR [[AddPCRValue 11 7 [1, 1], AddPCRValue 11 12 [2, 2]],
                    [AddPCRValue 11 12 [3, 3], AddPCRValue 11 7 [1, 1]]]]"
  from C6_selection_of_first_branch [of example_hashes ?p1 None 11]
    C6_selection_of_first_branch [of example_hashes ?p2 None 11]
  show ?thesis by (simp add: 1 2 s ne)
qed

text \<open>
  C7. When \<^verbatim>\<open>ComputePCRDigests\<close> succeeds, the digest list it returns is the list of the
  composite digests of the value sets \<^verbatim>\<open>ComputePCRValues\<close> returns, in their order,
  without its repetitions, each digest staying at its first occurrence: no digest
  occurs twice and every path's digest occurs. Two branches that end with the same
  values so contribute one digest.
\<close>

theorem C7_digests_deduplicated:
  assumes "ComputePCRDigests H p tpm a = Inr (pcrs, ds)"
  shows "\<exists>values. ComputePCRValues H p tpm = Inr values \<and>
    ds = dedup_first (map (PCRDigest H a) values) \<and>
    distinct ds \<and> set ds = PCRDigest H a ` set values"
proof -
  from assms obtain l where v: "ComputePCRValues H p tpm = Inr l"
    by (auto simp: ComputePCRDigests_def split: sum.splits)
  have ne: "l \<noteq> []" by (rule ComputePCRValues_nonempty [OF v])
  then obtain v0 vs where c: "l = v0 # vs" by (cases l) auto
  have "ds = unique_digests (map (PCRDigest H a) l) []"
    using assms
    by (auto simp: ComputePCRDigests_def v c branch_digests_eq Let_def split: if_splits)
  then have d: "ds = dedup_first (map (PCRDigest H a) l)"
    by (simp add: unique_digests_eq)
  show ?thesis
    using v d dedup_first_distinct [of "map (PCRDigest H a) l"]
      dedup_first_set [of "map (PCRDigest H a) l"]
    by simp
qed

theorem C7_digests_deduplicated_witness:
  "\<exists>values. ComputePCRValues example_hashes
       [AddProfileOR [[AddPCRValue 11 7 [1, 1]], [AddPCRValue 11 7 [2, 2]],
                      [AddPCRValue 11 7 [0, 0], AddPCRValue 11 7 [1, 1]]]] None = Inr values \<and>
     [[1, 1], [2, 2]] = dedup_first (map (PCRDigest example_hashes 11) values) \<and>
     distinct [[1, 1], [2, 2 :: 8 word]] \<and>
     set [[1, 1], [2, 2]] = PCRDigest example_hashes 11 ` set values"
proof -
  have v: "ComputePCRValues example_hashes
       [AddProfileOR [[AddPCRValue 11 7 [1, 1]], [AddPCRValue 11 7 [2, 2]],
                      [AddPCRValue 11 7 [0, 0], AddPCRValue 11 7 [1, 1]]]] None =
     Inr [[11 \<mapsto> [7 \<mapsto> [1, 1]]], [11 \<mapsto> [7 \<mapsto> [2, 2]]], [11 \<mapsto> [7 \<mapsto> [1, 1]]]]"
    by (simp add: ComputePCRValues_eval set_value_def)
  have s: "SelectionList [11 \<mapsto> [7 \<mapsto> d]] = {(11, 7)}" for d :: digest
    by (auto simp: SelectionList_upd SelectionList_empty)
  have g: "PCRDigest example_hashes b w = PCRValues_get w 11 7 @ PCRValues_get w 11 12" for b w
    by (simp add: example_hashes_def)
  have "ComputePCRDigests example_hashes
       [AddProfileOR [[AddPCRValue 11 7 [1, 1]], [AddPCRValue 11 7 [2, 2]],
                      [AddPCRValue 11 7 [0, 0], AddPCRValue 11 7 [1, 1]]]] None 11 =
     Inr ({(11, 7)}, [[1, 1], [2, 2]])"
    by (simp add: ComputePCRDigests_def v ComputePCRDigestSimple_def s g PCRValues_get_def)
  from C7_digests_deduplicated [OF this] show ?thesis .
qed

text \<open>
  C8. In a state the loop of \<^verbatim>\<open>ComputePCRValues\<close> reaches in which no value set of the
  context on top of the stack has an entry for (alg, pcr), the turn of the loop for
  \<^verbatim>\<open>ExtendPCR(alg, pcr, v)\<close> and the turn for \<^verbatim>\<open>AddPCRValue(alg, pcr, d)\<close>, with \<open>d\<close> the
  hash of \<^verbatim>\<open>alg.Size()\<close> zero bytes followed by \<open>v\<close>, end in the same state, store
  included; and on the content of one value set without the entry the two instructions
  give the same set. (The length of \<open>v\<close>, which the builder checks, plays no part.)
\<close>

theorem C8_extend_without_entry:
  assumes "run_steps n H tpm (state0 p) = Some s"
    and "\<forall>v\<in>set (ctx_values (heap s) (hd (contexts s))). PCRValues_entry v a pcr = None"
    and "PCRValues_entry w a pcr = None"
  shows "step H tpm (s\<lparr>iter := (ExtendPCR a pcr v # is) # rest\<rparr>) =
      step H tpm (s\<lparr>iter := (AddPCRValue a pcr (Sum H a (replicate (Size H a) 0 @ v)) # is) # rest\<rparr>) \<and>
    extend_value H a pcr v w = set_value a pcr (Sum H a (replicate (Size H a) 0 @ v)) w"
proof
  have inv: "state_inv s" by (rule run_steps_inv [OF state0_inv assms(1)])
  then have "contexts s \<noteq> []" by (auto simp: state_inv_def stack_inv_def)
  then obtain c cs where c: "contexts s = c # cs" by (cases "contexts s") auto
  have si: "stack_inv (heap s) (c # cs)" using inv c by (simp add: state_inv_def)
  note T = stack_inv_top [OF si]
  have "\<forall>x\<in>set (vals (ctxs (heap s) c)). PCRValues_entry (PCRValues_of (heap s) x) a pcr = None"
    using assms(2) c by (simp add: ctx_values_def list_values_def)
  from extendValue_fresh [OF T(1,3,4) this]
  show "step H tpm (s\<lparr>iter := (ExtendPCR a pcr v # is) # rest\<rparr>) =
      step H tpm (s\<lparr>iter := (AddPCRValue a pcr (Sum H a (replicate (Size H a) 0 @ v)) # is) # rest\<rparr>)"
    by (simp add: step_def stack_top_def c)
  show "extend_value H a pcr v w = set_value a pcr (Sum H a (replicate (Size H a) 0 @ v)) w"
    using assms(3)
    by (auto simp: extend_value_def set_value_def PCRValues_entry_def Let_def split: option.splits)
qed

theorem C8_extend_without_entry_witness:
  "step example_hashes None
     ((state0 [AddProfileOR [[ExtendPCR 11 7 [3, 4]], []]])\<lparr>iter := (ExtendPCR 11 7 [3, 4] # []) # [[]]\<rparr>) =
   step example_hashes None
     ((state0 [AddProfileOR [[ExtendPCR 11 7 [3, 4]], []]])\<lparr>iter := (AddPCRValue 11 7 [4, 3] # []) # [[]]\<rparr>) \<and>
   extend_value example_hashes 11 7 [3, 4] [11 \<mapsto> [12 \<mapsto> [1, 1]]] =
   set_value 11 7 [4, 3] [11 \<mapsto> [12 \<mapsto> [1, 1]]]"
proof -
  have 1: "run_steps 0 example_hashes None (state0 [AddProfileOR [[ExtendPCR 11 7 [3, 4]], []]]) =
      Some (state0 [AddProfileOR [[ExtendPCR 11 7 [3, 4]], []]])"
    by simp
  have 2: "\<forall>v\<in>set (ctx_values (heap (state0 [AddProfileOR [[ExtendPCR 11 7 [3, 4]], []]]))
        (hd (contexts (state0 [AddProfileOR [[ExtendPCR 11 7 [3, 4]], []]])))).
      PCRValues_entry v 11 7 = None"
    by (simp add: state0_def heap0_values PCRValues_entry_def)
  have 3: "PCRValues_entry [11 \<mapsto> [12 \<mapsto> [1, 1]]] 11 7 = None"
    by (simp add: PCRValues_entry_def)
  from C8_extend_without_entry [OF 1 2 3, of "[3, 4]" "[]" "[[]]"]
  show ?thesis by (simp add: example_hashes_def)
qed

text \<open>
  C9. Let \<open>s\<close> be a state the loop of \<^verbatim>\<open>ComputePCRValues\<close> reaches on a profile, in which
  \<^verbatim>\<open>next\<close> returns an \<^verbatim>\<open>AddPCRValueFromTPM\<close>. If the TPM context is nil, or its read of
  that PCR fails, this turn of the loop fails and \<^verbatim>\<open>ComputePCRValues\<close> returns the
  error ("no TPM context", or the wrapped read error) and no list of values: the store
  is not touched by the failed read and no further instruction is evaluated.
\<close>

theorem C9_failed_read_aborts:
  assumes "run_steps n H tpm (state0 p) = Some s"
    and "iter_next (iter s) = Some (Instr (AddPCRValueFromTPM a pcr), it)"
  shows "(tpm = None \<longrightarrow>
       step H tpm s = Fail (NoTPMContext pcr a) \<and>
       ComputePCRValues H p tpm = Inl (NoTPMContext pcr a)) \<and>
    (\<forall>PCRRead err. tpm = Some PCRRead \<and> PCRRead a pcr = Inl err \<longrightarrow>
       step H tpm s = Fail (PCRReadFailed pcr a err) \<and>
       ComputePCRValues H p tpm = Inl (PCRReadFailed pcr a err))"
proof -
  have r: "ComputePCRValues H p tpm = run H tpm s"
    using run_steps_run [OF assms(1)] by (simp add: ComputePCRValues_def)
  have 1: "step H tpm s = Fail (NoTPMContext pcr a)" if "tpm = None"
    using that assms(2) by (simp add: step_def)
  have 2: "step H tpm s = Fail (PCRReadFailed pcr a err)"
    if "tpm = Some PCRRead" "PCRRead a pcr = Inl err" for PCRRead err
    using that assms(2) by (simp add: step_def)
  show ?thesis
  proof (intro conjI allI impI)
    assume "tpm = None"
    from 1 [OF this] show "step H tpm s = Fail (NoTPMContext pcr a)" .
    from run_Fail [OF this] show "ComputePCRValues H p tpm = Inl (NoTPMContext pcr a)"
      by (simp add: r)
  next
    fix PCRRead err
    assume "tpm = Some PCRRead \<and> PCRRead a pcr = Inl err"
    then have t: "tpm = Some PCRRead" "PCRRead a pcr = Inl err" by simp_all
    from 2 [OF t] show "step H tpm s = Fail (PCRReadFailed pcr a err)" .
    from run_Fail [OF this] show "ComputePCRValues H p tpm = Inl (PCRReadFailed pcr a err)"
      by (simp add: r)
  qed
qed

theorem C9_failed_read_aborts_witness:
  "ComputePCRValues example_hashes [AddPCRValue 11 7 [1, 1], AddPCRValueFromTPM 11 12, AddPCRValue 11 7 [2, 2]] None =
     Inl (NoTPMContext 12 11) \<and>
   ComputePCRValues example_hashes [AddPCRValue 11 7 [1, 1], AddPCRValueFromTPM 11 12, AddPCRValue 11 7 [2, 2]]
       (Some example_tpm) =
     Inl (PCRReadFailed 12 11 ''no such PCR'')"
proof -
  let ?p = "[AddPCRValue 11 7 [1, 1], AddPCRValueFromTPM 11 12, AddPCRValue 11 7 [2, 2]]"
  let ?s = "(state0 ?p)\<lparr>iter := [[AddPCRValueFromTPM 11 12, AddPCRValue 11 7 [2, 2]]],
      heap := setValue [0] 11 7 [1, 1] heap0\<rparr>"
  have s: "run_steps (Suc 0) example_hashes tpm (state0 ?p) = Some ?s" for tpm
    by (simp add: step_def state0_def traverseInstructions_def descendInToProfiles_def
        stack_top_def heap0_def)
  have n: "iter_next (iter ?s) =
      Some (Instr (AddPCRValueFromTPM 11 12), [[AddPCRValue 11 7 [2, 2]]])"
    by simp
  from C9_failed_read_aborts [OF s n, of None] C9_failed_read_aborts [OF s n, of "Some example_tpm"]
  show ?thesis by (simp add: example_tpm_def)
qed

text \<open>
  C10. For every profile in which no instruction, at any depth, is an
  \<^verbatim>\<open>AddPCRValueFromTPM\<close>, \<^verbatim>\<open>ComputePCRValues\<close> with a nil TPM context returns a list of
  values, the one it returns with any TPM context. A turn of the loop with a nil TPM
  context fails with "no TPM context" exactly when \<^verbatim>\<open>next\<close> has returned an
  \<^verbatim>\<open>AddPCRValueFromTPM\<close>, and the error names its PCR and bank.
\<close>

theorem C10_nil_tpm_without_reads:
  assumes "\<forall>i\<in>set p. \<not> uses_tpm i"
  shows "(\<exists>l. ComputePCRValues H p None = Inr l) \<and>
    ComputePCRValues H p tpm = ComputePCRValues H p None \<and>
    (step H None s = Fail (NoTPMContext pcr a) \<longleftrightarrow>
       (\<exists>it. iter_next (iter s) = Some (Instr (AddPCRValueFromTPM a pcr), it)))"
proof (intro conjI)
  show "\<exists>l. ComputePCRValues H p None = Inr l"
    using eval_no_tpm(1) [of p H None "[Map.empty]"] assms by (simp add: ComputePCRValues_eval)
  show "ComputePCRValues H p tpm = ComputePCRValues H p None"
    using eval_no_tpm(1) [of p H tpm "[Map.empty]"] assms by (simp add: ComputePCRValues_eval)
  show "step H None s = Fail (NoTPMContext pcr a) \<longleftrightarrow>
      (\<exists>it. iter_next (iter s) = Some (Instr (AddPCRValueFromTPM a pcr), it))"
  proof (cases "iter_next (iter s)")
    case None
    then show ?thesis by (simp add: step_def)
  next
    case (Some x)
    obtain i it where x: "x = (i, it)" by (cases x)
    show ?thesis
      unfolding step_def Some x
      by (cases "(H, None :: TPMContext option, i, s\<lparr>iter := it\<rparr>)" rule: switch_instr.cases)
         (auto simp: stack_top_def split: option.splits sum.splits list.splits prod.splits)
  qed
qed

theorem C10_nil_tpm_without_reads_witness:
  "(\<exists>l. ComputePCRValues example_hashes
      [AddPCRValue 11 7 [1, 1], AddProfileOR [[ExtendPCR 11 12 [3, 4]], [AddProfileOR [[], []]]]] None = Inr l) \<and>
   ComputePCRValues example_hashes
      [AddPCRValue 11 7 [1, 1], AddProfileOR [[ExtendPCR 11 12 [3, 4]], [AddProfileOR [[], []]]]] (Some example_tpm) =
   ComputePCRValues example_hashes
      [AddPCRValue 11 7 [1, 1], AddProfileOR [[ExtendPCR 11 12 [3, 4]], [AddProfileOR [[], []]]]] None"
  using C10_nil_tpm_without_reads
    [of "[AddPCRValue 11 7 [1, 1], AddProfileOR [[ExtendPCR 11 12 [3, 4]], [AddProfileOR [[], []]]]]"
      example_hashes "Some example_tpm"]
  by simp

end
